theory Spec2Isabelle
  imports Complex_Main "HOL-Library.Word" "HOL-Library.Log_Nat"
begin

section \<open>Byte buffers and box views\<close>

text \<open>
  A \<open>Uint8Array\<close> is a list of bytes. Reading an index outside the array gives
  \<open>undefined\<close> in the source; \<open>elem\<close> returns \<open>None\<close> there. The bitwise
  operators convert their operands with ToInt32, under which \<open>undefined\<close> is 0.
  Storing to an index outside a typed array is ignored, as \<open>list_update\<close> does,
  and a stored number is reduced to its low eight bits.

  \<open>Mp4BoxData\<close> is the source's box view: the backing array and the bounds
  \<open>start\<close> and \<open>end\<close>. The primitive readers accept either a plain array or a
  view (\<open>'data' in buffer\<close>), which is the datatype \<open>buffer\<close>.
\<close>

unbundle bit_operations_syntax

type_synonym byte = "8 word"
type_synonym Uint8Array = "byte list"

record Mp4BoxData =
  box_data :: Uint8Array
  box_start :: nat
  box_end :: nat

datatype buffer = Bytes Uint8Array | Box Mp4BoxData

definition elem :: "Uint8Array \<Rightarrow> nat \<Rightarrow> byte option" where
  "elem buffer i = (if i < length buffer then Some (buffer ! i) else None)"

definition ToInt32 :: "byte option \<Rightarrow> 32 word" where
  "ToInt32 v = (case v of None \<Rightarrow> 0 | Some b \<Rightarrow> ucast b)"

definition store :: "Uint8Array \<Rightarrow> nat \<Rightarrow> 32 word \<Rightarrow> Uint8Array" where
  "store buffer i v = buffer[i := ucast v]"

fun backing :: "buffer \<Rightarrow> Uint8Array" where
  "backing (Bytes a) = a"
| "backing (Box b) = box_data b"

fun base :: "buffer \<Rightarrow> nat" where
  "base (Bytes a) = 0"
| "base (Box b) = box_start b"

text \<open>
  \<open>readUint32\<close>: the four bytes are combined with 32-bit signed shifts and ors, and
  a negative result is corrected by adding \<open>2^32\<close>.
\<close>

definition readUint32 :: "buffer \<Rightarrow> nat \<Rightarrow> nat" where
  "readUint32 buffer offset =
     (let offset = offset + base buffer;
          buffer = backing buffer;
          val = sint (push_bit 24 (ToInt32 (elem buffer offset))
                  OR push_bit 16 (ToInt32 (elem buffer (offset + 1)))
                  OR push_bit 8 (ToInt32 (elem buffer (offset + 2)))
                  OR ToInt32 (elem buffer (offset + 3)))
      in nat (if val < 0 then 4294967296 + val else val))"

text \<open>
  \<open>writeUint32\<close>: \<open>value >> k\<close> is a signed shift of ToInt32 of the value. The
  value is an integer-valued number here; the result is the backing array after the
  four stores.
\<close>

definition writeUint32 :: "buffer \<Rightarrow> nat \<Rightarrow> int \<Rightarrow> Uint8Array" where
  "writeUint32 buffer offset v =
     (let offset = offset + base buffer;
          buffer = backing buffer;
          v32 = (word_of_int v :: 32 word);
          buffer = store buffer offset (signed_drop_bit 24 v32);
          buffer = store buffer (offset + 1) (signed_drop_bit 16 v32 AND 0xff);
          buffer = store buffer (offset + 2) (signed_drop_bit 8 v32 AND 0xff);
          buffer = store buffer (offset + 3) (v32 AND 0xff)
      in buffer)"


text \<open>The same buffer object, seen after its backing array was mutated.\<close>

fun with_data :: "buffer \<Rightarrow> Uint8Array \<Rightarrow> buffer" where
  "with_data (Bytes a) d = Bytes d"
| "with_data (Box b) d = Box (b\<lparr>box_data := d\<rparr>)"


section \<open>Box navigator\<close>

text \<open>
  \<open>bin2str\<close> is \<open>String.fromCharCode\<close> over the bytes; \<open>subarray\<close> clamps its
  bounds to the array. A path segment is a string of byte-sized characters.
\<close>

definition bin2str :: "Uint8Array \<Rightarrow> string" where
  "bin2str d = map (\<lambda>b. char_of (unat b)) d"

definition subarray :: "Uint8Array \<Rightarrow> nat \<Rightarrow> nat \<Rightarrow> Uint8Array" where
  "subarray d begin end' = drop begin (take end' d)"

text \<open>
  The box header at offset \<open>i\<close>: its four-character type, and where the scan
  continues, \<open>endbox = size > 1 ? i + size : end\<close>.
\<close>

definition box_type :: "Uint8Array \<Rightarrow> nat \<Rightarrow> string" where
  "box_type d i = bin2str (subarray d (i + 4) (i + 8))"

definition endbox_at :: "Uint8Array \<Rightarrow> nat \<Rightarrow> nat \<Rightarrow> nat" where
  "endbox_at d i end' = (let size = readUint32 (Bytes d) i in if size > 1 then i + size else end')"

text \<open>The cursor moves forward in every iteration; termination rests on it.\<close>

lemma endbox_at_greater: "i < e \<Longrightarrow> i < endbox_at d i e"
  by (simp add: endbox_at_def Let_def)

text \<open>
  \<open>findBox_scan\<close> is the loop of \<open>findBox\<close> from cursor \<open>i\<close> in a container
  ending at \<open>end\<close>, with the recursive call on the child range for the rest of the
  path. An empty path returns no results.
\<close>

function findBox_scan :: "Uint8Array \<Rightarrow> nat \<Rightarrow> nat \<Rightarrow> string list \<Rightarrow> Mp4BoxData list" where
  "findBox_scan d i end' [] = []"
| "findBox_scan d i end' (p # ps) =
     (if i < end' then
        (let endbox = endbox_at d i end';
             found = (if box_type d i = p then
                        (if ps = [] then [\<lparr>box_data = d, box_start = i + 8, box_end = endbox\<rparr>]
                         else findBox_scan d (i + 8) endbox ps)
                      else [])
         in found @ findBox_scan d endbox end' (p # ps))
      else [])"
  by pat_completeness auto
termination
  by (relation "measures [\<lambda>(d, i, e, p). length p, \<lambda>(d, i, e, p). e - i]")
     (auto simp add: endbox_at_greater diff_less_mono2)

text \<open>A plain array is searched from 0 to its length, a view between its bounds.\<close>

fun box_of :: "buffer \<Rightarrow> Mp4BoxData" where
  "box_of (Bytes a) = \<lparr>box_data = a, box_start = 0, box_end = length a\<rparr>"
| "box_of (Box b) = b"

definition findBox :: "buffer \<Rightarrow> string list \<Rightarrow> Mp4BoxData list" where
  "findBox input path =
     (if path = [] then []
      else findBox_scan (box_data (box_of input)) (box_start (box_of input)) (box_end (box_of input)) path)"

text \<open>
  The same search with nothing assumed about its termination: not returning is the
  value \<open>None\<close>.
\<close>

partial_function (option) findBox_run ::
  "Uint8Array \<Rightarrow> nat \<Rightarrow> nat \<Rightarrow> string list \<Rightarrow> Mp4BoxData list option" where
  "findBox_run d i end' path =
     (if path = [] then Some []
      else if i < end' then
        (let endbox = endbox_at d i end'
         in Option.bind
              (if box_type d i = hd path then
                 (if length path = 1 then Some [\<lparr>box_data = d, box_start = i + 8, box_end = endbox\<rparr>]
                  else findBox_run d (i + 8) endbox (tl path))
               else Some [])
              (\<lambda>found. Option.bind (findBox_run d endbox end' path)
                 (\<lambda>rest. Some (found @ rest))))
      else Some [])"

text \<open>
  The number of nested activations of \<open>findBox\<close> on the deepest chain of calls
  that the search makes.
\<close>

function findBox_depth :: "Uint8Array \<Rightarrow> nat \<Rightarrow> nat \<Rightarrow> string list \<Rightarrow> nat" where
  "findBox_depth d i end' [] = 1"
| "findBox_depth d i end' (p # ps) =
     (if i < end' then
        (let endbox = endbox_at d i end';
             below = (if box_type d i = p \<and> ps \<noteq> [] then findBox_depth d (i + 8) endbox ps else 0)
         in max (1 + below) (findBox_depth d endbox end' (p # ps)))
      else 1)"
  by pat_completeness auto
termination
  by (relation "measures [\<lambda>(d, i, e, p). length p, \<lambda>(d, i, e, p). e - i]")
     (auto simp add: endbox_at_greater diff_less_mono2)

section \<open>Chunk-boundary detection\<close>

text \<open>
  Modelled from the spec: \<open>sliceUint8\<close> of \<open>utils/typed-array\<close>, which is not among
  the sources. It copies the bytes from index \<open>start\<close> up to \<open>end\<close> (to the end of the
  array when \<open>end\<close> is absent), with the index rules of \<open>slice\<close>: an index is clamped
  to the array, a negative one counts from its end.
\<close>

definition sliceUint8 :: "Uint8Array \<Rightarrow> int \<Rightarrow> int option \<Rightarrow> Uint8Array" where
  "sliceUint8 array start end' =
     (let len = int (length array);
          rel = (\<lambda>k. if k < 0 then max (len + k) 0 else min k len);
          from = rel start;
          to = (case end' of None \<Rightarrow> len | Some e \<Rightarrow> rel e)
      in take (nat (to - from)) (drop (nat from) array))"

record SegmentedRange =
  valid :: "Uint8Array option"
  remainder :: "Uint8Array option"

text \<open>
  \<open>segmentValidRange\<close>. The test \<open>!moofs\<close> of the source is never true of an array,
  so its branch is not part of the model.
\<close>

definition segmentValidRange :: "Uint8Array \<Rightarrow> SegmentedRange" where
  "segmentValidRange d =
     (let moofs = findBox (Bytes d) [''moof''] in
      if length moofs < 2 then \<lparr>valid = None, remainder = Some d\<rparr>
      else
        (let last = moofs ! (length moofs - 1) in
         \<lparr>valid = Some (sliceUint8 d 0 (Some (int (box_start last) - 8))),
          remainder = Some (sliceUint8 d (int (box_start last) - 8) None)\<rparr>))"

section \<open>Emulation-prevention bytes\<close>

text \<open>A number stored into a \<open>Uint8Array\<close>; \<open>undefined\<close> is stored as 0.\<close>

definition ToUint8 :: "byte option \<Rightarrow> byte" where
  "ToUint8 v = (case v of None \<Rightarrow> 0 | Some b \<Rightarrow> b)"

text \<open>
  The first loop of \<open>discardEmulationPreventionBytes\<close>: it starts at index 1 and
  collects the positions of the bytes to drop.
\<close>

function findEmulationPreventionBytes :: "Uint8Array \<Rightarrow> nat \<Rightarrow> nat list \<Rightarrow> nat list" where
  "findEmulationPreventionBytes d i positions =
     (if int i < int (length d) - 2 then
        (if elem d i = Some 0 \<and> elem d (i + 1) = Some 0 \<and> elem d (i + 2) = Some 3
         then findEmulationPreventionBytes d (i + 2) (positions @ [i + 2])
         else findEmulationPreventionBytes d (i + 1) positions)
      else positions)"
  by pat_completeness auto
termination
  by (relation "measure (\<lambda>(d, i, positions). length d - i)") auto

text \<open>
  The second loop: it copies the source into the new array and steps over the source
  index that heads the list of positions.
\<close>

function copyWithoutPositions ::
  "Uint8Array \<Rightarrow> nat \<Rightarrow> nat \<Rightarrow> nat \<Rightarrow> nat list \<Rightarrow> Uint8Array \<Rightarrow> Uint8Array" where
  "copyWithoutPositions d newLength i sourceIndex positions newData =
     (if i < newLength then
        (if positions \<noteq> [] \<and> sourceIndex = hd positions
         then copyWithoutPositions d newLength (i + 1) (sourceIndex + 2) (tl positions)
                (newData[i := ToUint8 (elem d (sourceIndex + 1))])
         else copyWithoutPositions d newLength (i + 1) (sourceIndex + 1) positions
                (newData[i := ToUint8 (elem d sourceIndex)]))
      else newData)"
  by pat_completeness auto
termination
  by (relation "measure (\<lambda>(d, newLength, i, sourceIndex, positions, newData). newLength - i)") auto

definition discardEmulationPreventionBytes :: "Uint8Array \<Rightarrow> Uint8Array" where
  "discardEmulationPreventionBytes d =
     (let positions = findEmulationPreventionBytes d 1 [] in
      if length positions = 0 then d
      else
        (let newLength = length d - length positions
         in copyWithoutPositions d newLength 0 0 positions (replicate newLength 0)))"

text \<open>
  The specification's words, for comparison with the code: every \<open>0x00 0x00 0x03\<close>
  triple collapses to \<open>0x00 0x00\<close>, read from left to right.
\<close>

fun strip_epb :: "Uint8Array \<Rightarrow> Uint8Array" where
  "strip_epb (a # b # c # xs) =
     (if a = 0 \<and> b = 0 \<and> c = 3 then a # b # strip_epb xs else a # strip_epb (b # c # xs))"
| "strip_epb xs = xs"


text \<open>
  Two functions on lists used in the proof: the positions that the first loop finds,
  and the copy that the second loop makes.
\<close>

fun epb_pos :: "nat \<Rightarrow> Uint8Array \<Rightarrow> nat list" where
  "epb_pos i (a # b # c # xs) =
     (if a = 0 \<and> b = 0 \<and> c = 3 then (i + 2) # epb_pos (i + 2) (c # xs)
      else epb_pos (i + 1) (b # c # xs))"
| "epb_pos i xs = []"

fun skip_at :: "nat list \<Rightarrow> nat \<Rightarrow> Uint8Array \<Rightarrow> Uint8Array" where
  "skip_at ps s [] = []"
| "skip_at ps s (x # xs) =
     (if ps \<noteq> [] \<and> s = hd ps then
        (case xs of [] \<Rightarrow> [] | y # ys \<Rightarrow> y # skip_at (tl ps) (s + 2) ys)
      else x # skip_at ps (s + 1) xs)"

section \<open>Numbers\<close>

text \<open>
  A number of the source is an IEEE 754 double: a value or one of the special values.
  The values are the rationals that a double can hold; the two zeros are taken as one
  (no operation used here tells them apart: there is no division by a negative zero
  and no test of a sign). Every arithmetic operator returns the double nearest to the
  exact result, a tie going to the even significand: \<open>to_double\<close>, with 53 bits of
  significand, exponents down to the subnormal range, and overflow to infinity.
\<close>

datatype number = Finite rat | PosInfinity | NegInfinity | NaN

text \<open>A non-negative integer below \<open>2^53\<close>, such as the readers return, is exact.\<close>

definition num :: "nat \<Rightarrow> number" where
  "num n = Finite (of_nat n)"

definition round_half_even :: "rat \<Rightarrow> int" where
  "round_half_even x =
     (let f = \<lfloor>x\<rfloor>; r = x - of_int f
      in if r < 1 / 2 then f else if 1 / 2 < r then f + 1 else if even f then f else f + 1)"

text \<open>\<open>ilog2 x\<close> is the exponent \<open>k\<close> with \<open>2^k \<le> x < 2^(k+1)\<close>, for a positive \<open>x\<close>.\<close>

definition ilog2 :: "rat \<Rightarrow> int" where
  "ilog2 x = (if 1 \<le> x then bitlen \<lfloor>x\<rfloor> - 1 else - bitlen (\<lceil>1 / x\<rceil> - 1))"

text \<open>The exponent of the last place of the double nearest to \<open>x\<close>.\<close>

definition ulp_exponent :: "rat \<Rightarrow> int" where
  "ulp_exponent x = max (ilog2 \<bar>x\<bar> - 52) (- 1074)"

definition to_double :: "rat \<Rightarrow> number" where
  "to_double x =
     (if x = 0 then Finite 0
      else
        (let e = ulp_exponent x;
             y = of_int (round_half_even (x / 2 powi e)) * 2 powi e
         in if 2 ^ 1024 \<le> y then PosInfinity
            else if y \<le> - (2 ^ 1024) then NegInfinity
            else Finite y))"


text \<open>The operators \<open>-x\<close>, \<open>+\<close>, \<open>-\<close>, \<open>*\<close>, \<open>/\<close> and \<open>%\<close>.\<close>

definition js_negate :: "number \<Rightarrow> number" where
  "js_negate x = (case x of Finite a \<Rightarrow> Finite (- a) | PosInfinity \<Rightarrow> NegInfinity
                  | NegInfinity \<Rightarrow> PosInfinity | NaN \<Rightarrow> NaN)"

fun js_plus :: "number \<Rightarrow> number \<Rightarrow> number" where
  "js_plus (Finite a) (Finite b) = to_double (a + b)"
| "js_plus NaN y = NaN"
| "js_plus x NaN = NaN"
| "js_plus PosInfinity NegInfinity = NaN"
| "js_plus NegInfinity PosInfinity = NaN"
| "js_plus PosInfinity y = PosInfinity"
| "js_plus NegInfinity y = NegInfinity"
| "js_plus x PosInfinity = PosInfinity"
| "js_plus x NegInfinity = NegInfinity"

definition js_minus :: "number \<Rightarrow> number \<Rightarrow> number" where
  "js_minus x y = js_plus x (js_negate y)"

definition number_sgn :: "number \<Rightarrow> int" where
  "number_sgn x = (case x of Finite a \<Rightarrow> (if a < 0 then - 1 else if a = 0 then 0 else 1)
                   | PosInfinity \<Rightarrow> 1 | NegInfinity \<Rightarrow> - 1 | NaN \<Rightarrow> 0)"

definition signed_Infinity :: "int \<Rightarrow> number" where
  "signed_Infinity s = (if s = 0 then NaN else if 0 < s then PosInfinity else NegInfinity)"

definition js_times :: "number \<Rightarrow> number \<Rightarrow> number" where
  "js_times x y =
     (case (x, y) of
        (Finite a, Finite b) \<Rightarrow> to_double (a * b)
      | _ \<Rightarrow> if x = NaN \<or> y = NaN then NaN else signed_Infinity (number_sgn x * number_sgn y))"

text \<open>A zero divisor is the positive zero, as the readers return it.\<close>

definition js_divide :: "number \<Rightarrow> number \<Rightarrow> number" where
  "js_divide x y =
     (case (x, y) of
        (Finite a, Finite b) \<Rightarrow> if b = 0 then signed_Infinity (number_sgn x) else to_double (a / b)
      | (Finite a, _) \<Rightarrow> if y = NaN then NaN else Finite 0
      | (_, Finite b) \<Rightarrow>
          if x = NaN then NaN else signed_Infinity (number_sgn x * (if b < 0 then - 1 else 1))
      | _ \<Rightarrow> NaN)"

definition truncate :: "rat \<Rightarrow> int" where
  "truncate x = (if x < 0 then - \<lfloor>- x\<rfloor> else \<lfloor>x\<rfloor>)"

text \<open>The remainder is exact; its sign follows the dividend.\<close>

definition js_remainder :: "number \<Rightarrow> number \<Rightarrow> number" where
  "js_remainder x y =
     (case (x, y) of
        (Finite a, Finite b) \<Rightarrow> if b = 0 then NaN else Finite (a - b * of_int (truncate (a / b)))
      | (Finite a, _) \<Rightarrow> if y = NaN then NaN else x
      | _ \<Rightarrow> NaN)"

text \<open>The comparisons \<open><\<close> and \<open><=\<close>, false when an operand is \<open>NaN\<close>.\<close>

definition js_less :: "number \<Rightarrow> number \<Rightarrow> bool" where
  "js_less x y =
     (case (x, y) of
        (Finite a, Finite b) \<Rightarrow> a < b
      | (Finite a, _) \<Rightarrow> y = PosInfinity
      | (_, Finite b) \<Rightarrow> x = NegInfinity
      | _ \<Rightarrow> x = NegInfinity \<and> y = PosInfinity)"

definition js_le :: "number \<Rightarrow> number \<Rightarrow> bool" where
  "js_le x y = (js_less x y \<or> x = y \<and> x \<noteq> NaN)"

text \<open>
  \<open>isFinite\<close>, \<open>Math.floor\<close>, \<open>Math.max\<close> of two numbers, and \<open>Number\<close> of a
  \<open>BigInt\<close>. \<open>ToInteger\<close> is the integer that ToInt32 reduces modulo \<open>2^32\<close>: the
  number truncated toward zero, and 0 for a number that is not finite.
\<close>

definition isFinite :: "number \<Rightarrow> bool" where
  "isFinite x = (case x of Finite a \<Rightarrow> True | _ \<Rightarrow> False)"

definition Math_floor :: "number \<Rightarrow> number" where
  "Math_floor x = (case x of Finite a \<Rightarrow> Finite (of_int \<lfloor>a\<rfloor>) | _ \<Rightarrow> x)"

definition Math_max :: "number \<Rightarrow> number \<Rightarrow> number" where
  "Math_max x y = (if x = NaN \<or> y = NaN then NaN else if js_less x y then y else x)"

definition Number_of_BigInt :: "nat \<Rightarrow> number" where
  "Number_of_BigInt n = to_double (of_nat n)"

definition ToInteger :: "number \<Rightarrow> int" where
  "ToInteger x = (case x of Finite a \<Rightarrow> truncate a | _ \<Rightarrow> 0)"

section \<open>Segment index\<close>

text \<open>
  \<open>readUint16\<close>, as \<open>readUint32\<close>: a negative intermediate result is corrected by
  adding \<open>2^16\<close>.
\<close>

definition readUint16 :: "buffer \<Rightarrow> nat \<Rightarrow> nat" where
  "readUint16 buffer offset =
     (let offset = offset + base buffer;
          buffer = backing buffer;
          val = sint (push_bit 8 (ToInt32 (elem buffer offset)) OR ToInt32 (elem buffer (offset + 1)))
      in nat (if val < 0 then 65536 + val else val))"

text \<open>
  The records of a decoded \<open>sidx\<close>. The duration in seconds is the quotient of two
  numbers.
\<close>

record SidxReferenceInfo =
  info_duration :: number
  info_start :: nat
  info_end :: int

record SidxReference =
  referenceSize :: nat
  subsegmentDuration :: nat
  info :: SidxReferenceInfo

record SidxInfo =
  sidx_earliestPresentationTime :: nat
  sidx_timescale :: nat
  sidx_version :: "byte option"
  sidx_referencesCount :: nat
  sidx_references :: "SidxReference list"
  sidx_moovEndOffset :: "nat option"

text \<open>
  The two parts of a reference word: \<open>referenceInfo & 0x7fffffff\<close> and
  \<open>(referenceInfo & 0x80000000) >>> 31\<close>.
\<close>

definition referenceSize_of :: "nat \<Rightarrow> nat" where
  "referenceSize_of referenceInfo = unat ((word_of_nat referenceInfo :: 32 word) AND 0x7fffffff)"

definition referenceType_of :: "nat \<Rightarrow> nat" where
  "referenceType_of referenceInfo =
     unat (drop_bit 31 ((word_of_nat referenceInfo :: 32 word) AND 0x80000000))"

text \<open>
  The loop over the references, \<open>n\<close> of them still to read. A hierarchical reference
  ends the whole decode with \<open>null\<close>.
\<close>

fun parseReferences ::
  "Mp4BoxData \<Rightarrow> nat \<Rightarrow> nat \<Rightarrow> nat \<Rightarrow> nat \<Rightarrow> SidxReference list \<Rightarrow> SidxReference list option" where
  "parseReferences sidx ts 0 index startByte refs = Some refs"
| "parseReferences sidx ts (Suc n) index startByte refs =
     (let referenceIndex = index;
          referenceInfo = readUint32 (Box sidx) referenceIndex;
          referenceIndex = referenceIndex + 4;
          referenceSize = referenceSize_of referenceInfo;
          referenceType = referenceType_of referenceInfo
      in if referenceType = 1 then None
         else
           (let subsegmentDuration = readUint32 (Box sidx) referenceIndex;
                referenceIndex = referenceIndex + 4;
                refs = refs @ [\<lparr>referenceSize = referenceSize,
                                subsegmentDuration = subsegmentDuration,
                                info = \<lparr>info_duration = js_divide (num subsegmentDuration) (num ts),
                                         info_start = startByte,
                                         info_end = int startByte + int referenceSize - 1\<rparr>\<rparr>];
                startByte = startByte + referenceSize;
                referenceIndex = referenceIndex + 4
            in parseReferences sidx ts n referenceIndex startByte refs))"

text \<open>
  \<open>parseSegmentIndex\<close>. The version is read from \<open>sidx.data[0]\<close>, the first byte
  of the backing array, as the source does.
\<close>

definition parseSegmentIndex :: "Uint8Array \<Rightarrow> SidxInfo option" where
  "parseSegmentIndex initSegment =
     (let moovBox = findBox (Bytes initSegment) [''moov''];
          moovEndOffset = (case moovBox of [] \<Rightarrow> None | moov # _ \<Rightarrow> Some (box_end moov));
          sidxBox = findBox (Bytes initSegment) [''sidx'']
      in case sidxBox of
           [] \<Rightarrow> None
         | sidx # _ \<Rightarrow>
             (let version = elem (box_data sidx) 0;
                  index = (if version = Some 0 then 8 else 16);
                  timescale = readUint32 (Box sidx) index;
                  index = index + 4;
                  earliestPresentationTime = 0;
                  firstOffset = 0;
                  index = (if version = Some 0 then index + 8 else index + 16);
                  index = index + 2;
                  startByte = box_end sidx + firstOffset;
                  referencesCount = readUint16 (Box sidx) index;
                  index = index + 2
              in case parseReferences sidx timescale referencesCount index startByte [] of
                   None \<Rightarrow> None
                 | Some refs \<Rightarrow>
                     Some \<lparr>sidx_earliestPresentationTime = earliestPresentationTime,
                           sidx_timescale = timescale,
                           sidx_version = version,
                           sidx_referencesCount = referencesCount,
                           sidx_references = refs,
                           sidx_moovEndOffset = moovEndOffset\<rparr>))"

text \<open>The offset in the \<open>sidx\<close> view at which the loop reads its first reference.\<close>

definition referencesOffset :: "Uint8Array \<Rightarrow> nat" where
  "referencesOffset d = (if elem d 0 = Some 0 then 24 else 40)"


text \<open>
  Three buffers holding one \<open>sidx\<close> box at timescale 90000. The first two are of
  version 0: one with a flat and a hierarchical reference, one with a single flat
  reference of size 1000 and duration 45000. The third is of version 1, with 64-bit
  earliest presentation time and first offset, and its only reference is hierarchical.
\<close>

definition sidx_hierarchical_example :: Uint8Array where "sidx_hierarchical_example = [0, 0, 0, 56, 115, 105, 100, 120, 0, 0, 0, 0, 0, 0, 0, 1, 0, 1, 95, 144,
        0, 0, 0, 0, 0, 0, 0, 0, 0, 0, 0, 2,
        0, 0, 3, 232, 0, 0, 175, 200, 0, 0, 0, 0,
        128, 0, 3, 232, 0, 0, 175, 200, 0, 0, 0, 0]"

definition sidx_flat_example :: Uint8Array where "sidx_flat_example = [0, 0, 0, 44, 115, 105, 100, 120, 0, 0, 0, 0, 0, 0, 0, 1, 0, 1, 95, 144,
        0, 0, 0, 0, 0, 0, 0, 0, 0, 0, 0, 1,
        0, 0, 3, 232, 0, 0, 175, 200, 0, 0, 0, 0]"

definition sidx_version1_example :: Uint8Array where "sidx_version1_example = [0, 0, 0, 52, 115, 105, 100, 120, 1, 0, 0, 0, 0, 0, 0, 1, 0, 1, 95, 144,
        0, 0, 0, 0, 0, 0, 0, 0, 0, 0, 0, 0, 0, 0, 0, 0, 0, 0, 0, 1,
        128, 0, 3, 232, 0, 0, 175, 200, 0, 0, 0, 0]"

section \<open>Sample timeline\<close>

text \<open>
  Exceptions are values: a function that can throw returns \<open>error + 'a\<close>, and
  \<open>and_then\<close> passes the first exception on. The \<open>DataView\<close> getters throw a
  \<open>RangeError\<close> when the read does not lie in the view.
\<close>

datatype error = RangeError | TypeError

definition and_then :: "error + 'a \<Rightarrow> ('a \<Rightarrow> error + 'b) \<Rightarrow> error + 'b" where
  "and_then r f = (case r of Inl e \<Rightarrow> Inl e | Inr v \<Rightarrow> f v)"

definition getUint8 :: "Uint8Array \<Rightarrow> nat \<Rightarrow> error + nat" where
  "getUint8 view byteOffset =
     (if byteOffset + 1 \<le> length view then Inr (unat (view ! byteOffset)) else Inl RangeError)"

definition getUint32 :: "Uint8Array \<Rightarrow> nat \<Rightarrow> error + nat" where
  "getUint32 view byteOffset =
     (if byteOffset + 4 \<le> length view then Inr (readUint32 (Bytes view) byteOffset) else Inl RangeError)"


text \<open>The sample flags, taken apart with masks and unsigned shifts.\<close>

record SampleFlags =
  isLeading :: nat
  dependsOn :: nat
  isDependedOn :: nat
  hasRedundancy :: nat
  paddingValue :: nat
  isNonSyncSample :: nat
  degradationPriority :: nat


text \<open>
  A sample as \<open>parseTrun\<close> makes it and \<open>parseSamples\<close> completes it: every field
  is a value or \<open>undefined\<close>.
\<close>

record TrunSample =
  sample_flags :: "SampleFlags option"
  sample_duration :: "nat option"
  sample_size :: "nat option"
  sample_compositionTimeOffset :: "nat option"
  sample_dts :: "number option"
  sample_pts :: "number option"
  sample_trackId :: "nat option"










definition or_default :: "nat option \<Rightarrow> nat \<Rightarrow> nat" where
  "or_default v dflt = (case v of None \<Rightarrow> dflt | Some n \<Rightarrow> n)"

text \<open>
  The body of the inner \<open>forEach\<close> of \<open>parseSamples\<close> on one sample, and the loop,
  which returns the samples with the running \<open>currentDts\<close>. The base decode time
  and the running sums are numbers.
\<close>

definition stampSample :: "nat \<Rightarrow> nat \<Rightarrow> nat \<Rightarrow> number \<Rightarrow> TrunSample \<Rightarrow> TrunSample" where
  "stampSample defaultSampleDuration defaultSampleSize trackId currentDts sample =
     sample\<lparr>sample_duration := Some (or_default (sample_duration sample) defaultSampleDuration),
            sample_size := Some (or_default (sample_size sample) defaultSampleSize),
            sample_trackId := Some trackId,
            sample_dts := Some currentDts,
            sample_compositionTimeOffset := Some (or_default (sample_compositionTimeOffset sample) 0),
            sample_pts := Some (js_plus currentDts (num (or_default (sample_compositionTimeOffset sample) 0)))\<rparr>"

fun stampSamples :: "nat \<Rightarrow> nat \<Rightarrow> nat \<Rightarrow> number \<Rightarrow> TrunSample list \<Rightarrow> TrunSample list \<times> number" where
  "stampSamples dd ds trackId currentDts [] = ([], currentDts)"
| "stampSamples dd ds trackId currentDts (sample # samples) =
     (let sample' = stampSample dd ds trackId currentDts sample;
          currentDts = js_plus currentDts (num (or_default (sample_duration sample) dd));
          (rest, currentDts) = stampSamples dd ds trackId currentDts samples
      in (sample' # rest, currentDts))"








section \<open>Timed metadata\<close>

definition ID3_SCHEME_ID_URIS :: "string list" where
  "ID3_SCHEME_ID_URIS = [''https://aomedia.org/emsg/ID3'', ''https://developer.apple.com/streaming/emsg-id3'']"

text \<open>
  The loop of \<open>readNullTerminatedString\<close>: it stops at a zero byte, and at the end of
  the buffer, where \<open>String.fromCharCode(undefined)\<close> is the zero character.
\<close>

function nullTerminatorIndex :: "Uint8Array \<Rightarrow> nat \<Rightarrow> nat" where
  "nullTerminatorIndex buffer i =
     (if ToInt32 (elem buffer i) \<noteq> 0 \<and> i < length buffer
      then nullTerminatorIndex buffer (i + 1) else i)"
  by pat_completeness auto
termination
  by (relation "measure (\<lambda>(buffer, i). length buffer - i)") auto

definition readNullTerminatedString :: "Uint8Array \<Rightarrow> nat \<Rightarrow> string" where
  "readNullTerminatedString buffer offset =
     bin2str (subarray buffer offset (nullTerminatorIndex buffer offset))"

text \<open>
  \<open>getBigUint64\<close>, read as two 32-bit words: an integer of 64 bits. The source
  converts it with \<open>Number\<close>, which rounds it to a double.
\<close>

definition getBigUint64 :: "Uint8Array \<Rightarrow> nat \<Rightarrow> error + nat" where
  "getBigUint64 view byteOffset =
     (if byteOffset + 8 \<le> length view
      then Inr (readUint32 (Bytes view) byteOffset * 4294967296 + readUint32 (Bytes view) (byteOffset + 4))
      else Inl RangeError)"

record Id3Sample =
  id3_timescale :: nat
  id3_pts :: number
  id3_dts :: number
  id3_duration :: "nat option"
  id3_id :: nat
  id3_schemeIdUri :: string
  id3_value :: string
  id3_data :: Uint8Array

text \<open>
  The body of the \<open>try\<close> block on one \<open>emsg\<close> box: \<open>Inr None\<close> is the
  \<open>return undefined\<close> of the source, \<open>Inl\<close> an exception of a getter.
\<close>

definition parseEmsg :: "Mp4BoxData \<Rightarrow> error + Id3Sample option" where
  "parseEmsg emsg =
     (let d = subarray (box_data emsg) (box_start emsg) (box_end emsg);
          offset = 0
      in and_then (getUint8 d offset) (\<lambda>version.
         if version \<noteq> 1 then Inr None
         else
           and_then (getUint32 d (offset + 4)) (\<lambda>timescale.
           and_then (getBigUint64 d (offset + 4 + 4)) (\<lambda>bigint.
           and_then (getUint32 d (offset + 4 + 4 + 8)) (\<lambda>eventDuration.
           and_then (getUint32 d (offset + 4 + 4 + 8 + 4)) (\<lambda>id.
             (let presentationTime = Number_of_BigInt bigint;
                  offset = offset + 4 + 4 + 8 + 4 + 4;
                  schemeIdUri = readNullTerminatedString d offset
              in if schemeIdUri \<notin> set ID3_SCHEME_ID_URIS then Inr None
                 else
                   (let offset = offset + (length schemeIdUri + 1);
                        v = readNullTerminatedString d offset;
                        offset = offset + (length v + 1);
                        messageData = subarray d offset (length d)
                    in Inr (Some \<lparr>id3_timescale = timescale,
                                    id3_pts = presentationTime,
                                    id3_dts = presentationTime,
                                    id3_duration =
                                      (if eventDuration \<noteq> 4294967295 then Some eventDuration else None),
                                    id3_id = id,
                                    id3_schemeIdUri = schemeIdUri,
                                    id3_value = v,
                                    id3_data = messageData\<rparr>)))))))))"

text \<open>
  \<open>try ... catch\<close>, and \<open>Array.prototype.map\<close> with a callback that may throw: an
  exception of the callback ends the map.
\<close>

definition catch :: "error + 'a \<Rightarrow> (error \<Rightarrow> error + 'a) \<Rightarrow> error + 'a" where
  "catch r h = (case r of Inl e \<Rightarrow> h e | Inr v \<Rightarrow> Inr v)"

fun array_map :: "('a \<Rightarrow> error + 'b) \<Rightarrow> 'a list \<Rightarrow> error + 'b list" where
  "array_map f [] = Inr []"
| "array_map f (x # xs) =
     and_then (f x) (\<lambda>y. and_then (array_map f xs) (\<lambda>ys. Inr (y # ys)))"

definition parseId3TrackSamples :: "Uint8Array \<Rightarrow> error + Id3Sample option list" where
  "parseId3TrackSamples d =
     (let emsgs = findBox (Bytes d) [''emsg'']
      in array_map (\<lambda>emsg. catch (parseEmsg emsg) (\<lambda>e. Inr None)) emsgs)"

text \<open>The bytes of a box view, and the record that a well-formed payload decodes to.\<close>

definition emsg_payload :: "Mp4BoxData \<Rightarrow> Uint8Array" where
  "emsg_payload emsg = subarray (box_data emsg) (box_start emsg) (box_end emsg)"

definition id3_record :: "Uint8Array \<Rightarrow> Id3Sample" where
  "id3_record p =
     (let schemeIdUri = readNullTerminatedString p 24;
          valueOffset = 24 + (length schemeIdUri + 1);
          v = readNullTerminatedString p valueOffset;
          dataOffset = valueOffset + (length v + 1)
      in \<lparr>id3_timescale = readUint32 (Bytes p) 4,
          id3_pts = Number_of_BigInt (readUint32 (Bytes p) 8 * 4294967296 + readUint32 (Bytes p) 12),
          id3_dts = Number_of_BigInt (readUint32 (Bytes p) 8 * 4294967296 + readUint32 (Bytes p) 12),
          id3_duration = (if readUint32 (Bytes p) 16 \<noteq> 4294967295
                          then Some (readUint32 (Bytes p) 16) else None),
          id3_id = readUint32 (Bytes p) 20,
          id3_schemeIdUri = schemeIdUri,
          id3_value = v,
          id3_data = subarray p dataOffset (length p)\<rparr>)"

text \<open>
  A buffer of two \<open>emsg\<close> boxes: one of version 0, one of version 1 with the first
  scheme URI of the allow-list, the value \<open>1\<close> and three bytes of payload.
\<close>

definition emsg_example :: Uint8Array where
  "emsg_example =
     [0, 0, 0, 9, 101, 109, 115, 103, 0,
      0, 0, 0, 66, 101, 109, 115, 103,
      1, 0, 0, 0, 0, 1, 95, 144, 0, 0, 0, 0, 0, 0, 0, 5, 255, 255, 255, 255, 0, 0, 0, 7,
      104, 116, 116, 112, 115, 58, 47, 47, 97, 111, 109, 101, 100, 105, 97, 46, 111, 114, 103,
      47, 101, 109, 115, 103, 47, 73, 68, 51, 0,
      49, 0,
      73, 68, 51]"

section \<open>Fragment timing\<close>

text \<open>
  The track table of an initialization segment, by numeric track id. Only the timescale
  is read here; it is optional in the model, for a track that has none.
\<close>

datatype HdlrType = audio | video

record TrackDefault =
  default_duration :: nat
  default_flags :: nat

record InitDataTrack =
  track_timescale :: "nat option"
  track_type :: HdlrType
  track_default :: "TrackDefault option"

type_synonym InitData = "nat \<Rightarrow> InitDataTrack option"

text \<open>\<open>track.timescale || 90e3\<close>: an absent or zero timescale falls back to 90 kHz.\<close>

definition timescale_or_90k :: "InitDataTrack \<Rightarrow> nat" where
  "timescale_or_90k track =
     (case track_timescale track of None \<Rightarrow> 90000 | Some n \<Rightarrow> if n = 0 then 90000 else n)"

text \<open>
  The base decode time of a \<open>tfdt\<close>: 32 bits, or 64 bits for version 1 as
  \<open>high * 2^32 + low\<close> in the arithmetic of numbers (\<open>Math.pow(2, 32)\<close> is
  \<open>2^32\<close>), and the start time in seconds for a track, their quotient.
\<close>

definition tfdt_baseTime :: "Mp4BoxData \<Rightarrow> number" where
  "tfdt_baseTime tfdt =
     (let version = elem (box_data tfdt) (box_start tfdt);
          baseTime = num (readUint32 (Box tfdt) 4)
      in if version = Some 1
         then js_plus (js_times baseTime (Finite (2 ^ 32))) (num (readUint32 (Box tfdt) 8))
         else baseTime)"

definition tfdt_startTime :: "Mp4BoxData \<Rightarrow> InitDataTrack \<Rightarrow> number" where
  "tfdt_startTime tfdt track =
     (let baseTime = tfdt_baseTime tfdt;
          scale = num (timescale_or_90k track)
      in js_divide baseTime scale)"

text \<open>
  The two reducers of \<open>getStartDTS\<close>. \<open>findBox(traf, ['tfdt'])[0]\<close> is
  \<open>undefined\<close> for a \<open>traf\<close> without a \<open>tfdt\<close>, and reading its \<open>data\<close> throws
  a \<open>TypeError\<close>.
\<close>

definition earlier :: "number option \<Rightarrow> number \<Rightarrow> number option" where
  "earlier result startTime =
     (if isFinite startTime \<and> (result = None \<or> js_less startTime (the result))
      then Some startTime else result)"

definition getStartDTS_tfhd ::
  "InitData \<Rightarrow> Mp4BoxData \<Rightarrow> number option \<Rightarrow> Mp4BoxData \<Rightarrow> number option" where
  "getStartDTS_tfhd initData tfdt result tfhd =
     (let id = readUint32 (Box tfhd) 4;
          track = initData id
      in case track of
           None \<Rightarrow> result
         | Some track \<Rightarrow> earlier result (tfdt_startTime tfdt track))"

fun getStartDTS_trafs ::
  "InitData \<Rightarrow> Mp4BoxData list \<Rightarrow> number option \<Rightarrow> error + number option" where
  "getStartDTS_trafs initData [] result = Inr result"
| "getStartDTS_trafs initData (traf # trafs) result =
     (case findBox (Box traf) [''tfdt''] of
        [] \<Rightarrow> Inl TypeError
      | tfdt # _ \<Rightarrow>
          (let start = foldl (getStartDTS_tfhd initData tfdt) None (findBox (Box traf) [''tfhd''])
           in getStartDTS_trafs initData trafs
                (if start \<noteq> None \<and> isFinite (the start)
                      \<and> (result = None \<or> js_less (the start) (the result))
                 then start else result)))"

text \<open>The final \<open>|| 0\<close> replaces \<open>null\<close>, zero and \<open>NaN\<close> by 0.\<close>

definition getStartDTS :: "InitData \<Rightarrow> Uint8Array \<Rightarrow> error + number" where
  "getStartDTS initData fmp4 =
     and_then (getStartDTS_trafs initData (findBox (Bytes fmp4) [''moof'', ''traf'']) None)
       (\<lambda>result. Inr (case result of
                        None \<Rightarrow> Finite 0
                      | Some v \<Rightarrow> if v = Finite 0 \<or> v = NaN then Finite 0 else v))"

text \<open>
  A fragment with one \<open>moof/traf\<close> holding a \<open>tfhd\<close> for track 1 and a version-1
  \<open>tfdt\<close> with base decode time 180000, and a track table with track 1 at 90 kHz.
\<close>

definition fragment_example :: Uint8Array where
  "fragment_example =
     [0, 0, 0, 52, 109, 111, 111, 102,
      0, 0, 0, 44, 116, 114, 97, 102,
      0, 0, 0, 16, 116, 102, 104, 100, 0, 0, 0, 0, 0, 0, 0, 1,
      0, 0, 0, 20, 116, 102, 100, 116, 1, 0, 0, 0, 0, 0, 0, 0, 0, 2, 191, 32]"

definition initData_example :: InitData where
  "initData_example =
     (\<lambda>id. if id = 1
           then Some \<lparr>track_timescale = Some 90000, track_type = video, track_default = None\<rparr>
           else None)"

text \<open>
  A fragment with two \<open>traf\<close> boxes: the first as above, the second with a \<open>tfhd\<close>
  for track 2 and no \<open>tfdt\<close>.
\<close>

definition fragment_missing_tfdt :: Uint8Array where
  "fragment_missing_tfdt =
     [0, 0, 0, 76, 109, 111, 111, 102,
      0, 0, 0, 44, 116, 114, 97, 102,
      0, 0, 0, 16, 116, 102, 104, 100, 0, 0, 0, 0, 0, 0, 0, 1,
      0, 0, 0, 20, 116, 102, 100, 116, 1, 0, 0, 0, 0, 0, 0, 0, 0, 2, 191, 32,
      0, 0, 0, 24, 116, 114, 97, 102,
      0, 0, 0, 16, 116, 102, 104, 100, 0, 0, 0, 0, 0, 0, 0, 2]"

section \<open>Timestamp-offset rewrite\<close>

text \<open>
  The time offset is a number of seconds. \<open>UINT32_MAX + 1\<close> is \<open>2^32\<close>.
\<close>

definition UINT32_MAX :: int where
  "UINT32_MAX = 2 ^ 32 - 1"

text \<open>
  The box views of a buffer share its bytes, and \<open>offsetStartDTS\<close> writes to them
  while it iterates. The model threads the current bytes \<open>d\<close> through the loops and
  reads and writes every view on them: \<open>view_on d b\<close>.
\<close>

definition view_on :: "Uint8Array \<Rightarrow> Mp4BoxData \<Rightarrow> buffer" where
  "view_on d b = Box (b\<lparr>box_data := d\<rparr>)"

text \<open>
  The innermost callback, on one \<open>tfdt\<close>: the 32-bit result is written directly for
  version 0, the 64-bit result is clamped at zero and split into two words otherwise.
  The result is the buffer after the writes.
\<close>

definition offsetTfdt :: "number \<Rightarrow> nat \<Rightarrow> Uint8Array \<Rightarrow> Mp4BoxData \<Rightarrow> Uint8Array" where
  "offsetTfdt timeOffset timescale d tfdt =
     (let version = elem d (box_start tfdt);
          baseMediaDecodeTime = num (readUint32 (view_on d tfdt) 4)
      in if version = Some 0
         then writeUint32 (view_on d tfdt) 4
                (ToInteger (js_minus baseMediaDecodeTime (js_times timeOffset (num timescale))))
         else
           (let baseMediaDecodeTime = js_times baseMediaDecodeTime (Finite (2 ^ 32));
                baseMediaDecodeTime = js_plus baseMediaDecodeTime (num (readUint32 (view_on d tfdt) 8));
                baseMediaDecodeTime = js_minus baseMediaDecodeTime (js_times timeOffset (num timescale));
                baseMediaDecodeTime = Math_max baseMediaDecodeTime (Finite 0);
                upper = Math_floor (js_divide baseMediaDecodeTime (Finite (of_int (UINT32_MAX + 1))));
                lower = Math_floor (js_remainder baseMediaDecodeTime (Finite (of_int (UINT32_MAX + 1))));
                d = writeUint32 (view_on d tfdt) 4 (ToInteger upper)
            in writeUint32 (view_on d tfdt) 8 (ToInteger lower)))"

text \<open>
  The callbacks on one \<open>tfhd\<close> and on one \<open>traf\<close>, and \<open>offsetStartDTS\<close>. Each
  \<open>findBox\<close> runs on the bytes as they are when it is called.
\<close>

definition offsetTfhd :: "InitData \<Rightarrow> number \<Rightarrow> Mp4BoxData \<Rightarrow> Uint8Array \<Rightarrow> Mp4BoxData \<Rightarrow> Uint8Array" where
  "offsetTfhd initData timeOffset traf d tfhd =
     (let id = readUint32 (view_on d tfhd) 4;
          track = initData id
      in case track of
           None \<Rightarrow> d
         | Some track \<Rightarrow>
             (let timescale = timescale_or_90k track
              in foldl (offsetTfdt timeOffset timescale) d (findBox (view_on d traf) [''tfdt''])))"

definition offsetTraf :: "InitData \<Rightarrow> number \<Rightarrow> Uint8Array \<Rightarrow> Mp4BoxData \<Rightarrow> Uint8Array" where
  "offsetTraf initData timeOffset d traf =
     foldl (offsetTfhd initData timeOffset traf) d (findBox (view_on d traf) [''tfhd''])"

definition offsetStartDTS :: "InitData \<Rightarrow> Uint8Array \<Rightarrow> number \<Rightarrow> Uint8Array" where
  "offsetStartDTS initData fmp4 timeOffset =
     foldl (offsetTraf initData timeOffset) fmp4 (findBox (Bytes fmp4) [''moof'', ''traf''])"

section \<open>Properties of the byte readers\<close>

lemma unsigned_fix: "nat (if sint (w :: 32 word) < 0 then 4294967296 + sint w else sint w) = unat w"
proof -
  have m: "uint w = sint w mod 2 ^ 32"
    by (simp add: uint_sint take_bit_eq_mod)
  have lo: "- (2 ^ 31) \<le> sint w" using sint_ge [of w] by simp
  have hi: "sint w < 2 ^ 31" using sint_lt [of w] by simp
  have "(if sint w < 0 then 4294967296 + sint w else sint w) = uint w"
  proof (cases "sint w < 0")
    case True
    have "(sint w + 2 ^ 32) mod 2 ^ 32 = sint w + 2 ^ 32"
      using True lo hi by (intro mod_pos_pos_trivial) simp_all
    then have "sint w mod 2 ^ 32 = sint w + 2 ^ 32"
      by simp
    with True m show ?thesis by simp
  next
    case False
    then have "sint w mod 2 ^ 32 = sint w"
      using hi by simp
    with False m show ?thesis by simp
  qed
  then show ?thesis by simp
qed

lemma recombine:
  "push_bit 24 (ucast (ucast (signed_drop_bit 24 v) :: byte))
     OR push_bit 16 (ucast (ucast (signed_drop_bit 16 v AND 0xff) :: byte))
     OR push_bit 8 (ucast (ucast (signed_drop_bit 8 v AND 0xff) :: byte))
     OR ucast (ucast (v AND 0xff) :: byte) = (v :: 32 word)"
proof -
  have m: "(255 :: 32 word) = mask 8" by (simp add: mask_eq_exp_minus_1)
  have a: "\<And>n::nat. 8 + (n - 8) = (if n < 8 then 8 else n)"
    "\<And>n::nat. 16 + (n - 16) = (if n < 16 then 16 else n)"
    "\<And>n::nat. 24 + (n - 24) = (if n < 24 then 24 else n)"
    by simp_all
  show ?thesis
    unfolding m
    by (rule bit_word_eqI) (auto simp add: bit_simps a)
qed


lemma length_writeUint32 [simp]: "length (writeUint32 buf offset v) = length (backing buf)"
  by (simp add: writeUint32_def store_def Let_def)

lemma readUint32_unat:
  "readUint32 buf offset =
     unat (push_bit 24 (ToInt32 (elem (backing buf) (offset + base buf)))
        OR push_bit 16 (ToInt32 (elem (backing buf) (offset + base buf + 1)))
        OR push_bit 8 (ToInt32 (elem (backing buf) (offset + base buf + 2)))
        OR ToInt32 (elem (backing buf) (offset + base buf + 3)))"
  unfolding readUint32_def Let_def by (rule unsigned_fix)

lemma readUint32_less: "readUint32 buf offset < 4294967296"
proof -
  have "unat (w :: 32 word) < 2 ^ 32" for w
    using unsigned_less [of w] by simp
  then show ?thesis
    unfolding readUint32_unat by simp
qed

lemma backing_with_data [simp]: "backing (with_data buf d) = d"
  by (cases buf) simp_all

lemma base_with_data [simp]: "base (with_data buf d) = base buf"
  by (cases buf) simp_all

lemma readUint32_write_same:
  assumes "offset + base buf + 3 < length (backing buf)"
  shows "readUint32 (with_data buf (writeUint32 buf offset v)) offset = nat (v mod 2 ^ 32)"
proof -
  define w :: "32 word" where "w = word_of_int v"
  define i where "i = offset + base buf"
  have b: "i + 3 < length (backing buf)"
    using assms by (simp add: i_def)
  have e0: "elem (writeUint32 buf offset v) i = Some (ucast (signed_drop_bit 24 w))"
    using b by (simp add: writeUint32_def store_def elem_def Let_def w_def i_def)
  have e1: "elem (writeUint32 buf offset v) (i + 1) = Some (ucast (signed_drop_bit 16 w AND 0xff))"
    using b by (simp add: writeUint32_def store_def elem_def Let_def w_def i_def)
  have e2: "elem (writeUint32 buf offset v) (i + 2) = Some (ucast (signed_drop_bit 8 w AND 0xff))"
    using b by (simp add: writeUint32_def store_def elem_def Let_def w_def i_def)
  have e3: "elem (writeUint32 buf offset v) (i + 3) = Some (ucast (w AND 0xff))"
    using b by (simp add: writeUint32_def store_def elem_def Let_def w_def i_def)
  have "readUint32 (with_data buf (writeUint32 buf offset v)) offset = unat w"
    unfolding readUint32_unat backing_with_data base_with_data
    using e0 e1 e2 e3 by (simp add: i_def ToInt32_def recombine)
  also have "\<dots> = nat (v mod 2 ^ 32)"
  proof -
    have "uint w = v mod 2 ^ 32"
      by (simp add: w_def uint_word_of_int)
    then show ?thesis
      by (metis unat_eq_nat_uint)
  qed
  finally show ?thesis .
qed

text \<open>
  C9. Reading a 32-bit big-endian unsigned integer at an in-bounds offset immediately
  after writing a value there returns the value modulo \<open>2^32\<close>, for a plain array
  and for a box view alike.
\<close>

theorem readUint32_writeUint32:
  assumes "offset + base buf + 3 < length (backing buf)"
  shows "readUint32 (with_data buf (writeUint32 buf offset v)) offset = nat (v mod 2 ^ 32)"
  using assms by (rule readUint32_write_same)

theorem readUint32_writeUint32_witness:
  "readUint32 (with_data (Bytes [0, 0, 0, 0, 0, 0]) (writeUint32 (Bytes [0, 0, 0, 0, 0, 0]) 1 (- 2))) 1
     = nat ((- 2) mod 2 ^ 32)
   \<and> readUint32 (Box \<lparr>box_data = [9, 9, 254, 220, 186, 152, 9], box_start = 2, box_end = 6\<rparr>) 0 = 4275878552"
  using readUint32_writeUint32 [of 1 "Bytes [0, 0, 0, 0, 0, 0]" "- 2"]
  by (simp add: readUint32_unat elem_def ToInt32_def)

section \<open>Properties of the box navigator\<close>

lemmas byte_eval = bin2str_def subarray_def box_type_def endbox_at_def readUint32_unat
  elem_def ToInt32_def char_of_def bit_Suc_0_iff

declare findBox_scan.simps(2) [simp del] findBox_depth.simps(2) [simp del]

lemma findBox_scan_done: "\<not> i < e \<Longrightarrow> findBox_scan d i e path = []"
proof (cases path)
  case Nil
  then show ?thesis by simp
next
  case (Cons p ps)
  assume "\<not> i < e"
  then show ?thesis
    unfolding Cons by (subst findBox_scan.simps(2)) simp
qed

lemma findBox_scan_step:
  "i < e \<Longrightarrow> findBox_scan d i e (p # ps) =
     (if box_type d i = p then
        (if ps = [] then [\<lparr>box_data = d, box_start = i + 8, box_end = endbox_at d i e\<rparr>]
         else findBox_scan d (i + 8) (endbox_at d i e) ps)
      else []) @ findBox_scan d (endbox_at d i e) e (p # ps)"
  by (subst findBox_scan.simps(2)) (simp add: Let_def)

lemma findBox_run_eq: "findBox_run d i e path = Some (findBox_scan d i e path)"
proof (induction d i e path rule: findBox_scan.induct)
  case (1 d i e)
  show ?case by (subst findBox_run.simps) simp
next
  case (2 d i e p ps)
  show ?case
  proof (cases "i < e")
    case False
    then show ?thesis
      by (subst findBox_run.simps) (simp add: findBox_scan_done)
  next
    case True
    have r: "findBox_run d (endbox_at d i e) e (p # ps) = Some (findBox_scan d (endbox_at d i e) e (p # ps))"
      using "2.IH"(2) [OF True refl refl] .
    have b: "box_type d i = p \<Longrightarrow> ps \<noteq> [] \<Longrightarrow>
        findBox_run d (i + 8) (endbox_at d i e) ps = Some (findBox_scan d (i + 8) (endbox_at d i e) ps)"
      using "2.IH"(1) [OF True refl] by simp
    show ?thesis
      by (subst findBox_run.simps) (simp add: True findBox_scan_step r b Let_def)
  qed
qed

lemma findBox_depth_le: "findBox_depth d i e path \<le> max 1 (length path)"
proof (induction d i e path rule: findBox_depth.induct)
  case (1 d i e)
  show ?case by simp
next
  case (2 d i e p ps)
  show ?case
  proof (cases "i < e")
    case False
    then show ?thesis by (subst findBox_depth.simps(2)) simp
  next
    case True
    have r: "findBox_depth d (endbox_at d i e) e (p # ps) \<le> max 1 (length (p # ps))"
      using "2.IH"(2) [OF True refl refl] .
    have b: "box_type d i = p \<and> ps \<noteq> [] \<Longrightarrow>
        findBox_depth d (i + 8) (endbox_at d i e) ps \<le> max 1 (length ps)"
      using "2.IH"(1) [OF True refl] by simp
    define below where "below =
      (if box_type d i = p \<and> ps \<noteq> [] then findBox_depth d (i + 8) (endbox_at d i e) ps else 0)"
    have b': "below \<le> length ps"
      using b by (cases ps) (auto simp add: below_def)
    have "findBox_depth d i e (p # ps) =
        max (1 + below) (findBox_depth d (endbox_at d i e) e (p # ps))"
      using True unfolding below_def by (subst findBox_depth.simps(2)) (simp add: Let_def)
    with r b' show ?thesis
      by simp
  qed
qed

lemma findBox_scan_data: "b \<in> set (findBox_scan d i e path) \<Longrightarrow> box_data b = d"
proof (induction d i e path arbitrary: b rule: findBox_scan.induct)
  case (1 d i e)
  then show ?case by simp
next
  case (2 d i e p ps)
  show ?case
  proof (cases "i < e")
    case False
    with "2.prems" show ?thesis by (simp add: findBox_scan_done)
  next
    case True
    from "2.prems" consider
      (here) "b = \<lparr>box_data = d, box_start = i + 8, box_end = endbox_at d i e\<rparr>"
      | (below) "box_type d i = p" "ps \<noteq> []" "b \<in> set (findBox_scan d (i + 8) (endbox_at d i e) ps)"
      | (later) "b \<in> set (findBox_scan d (endbox_at d i e) e (p # ps))"
      unfolding findBox_scan_step [OF True] by (auto split: if_splits)
    then show ?thesis
    proof cases
      case here
      then show ?thesis by simp
    next
      case below
      from "2.IH"(1) [OF True refl below] show ?thesis .
    next
      case later
      from "2.IH"(2) [OF True refl refl later] show ?thesis .
    qed
  qed
qed

lemma findBox_data: "b \<in> set (findBox input path) \<Longrightarrow> box_data b = box_data (box_of input)"
  by (cases "path = []") (auto simp add: findBox_def dest: findBox_scan_data)

lemma findBox_scan_single_aux:
  "b \<in> set (findBox_scan d i e path) \<Longrightarrow> path = [p] \<Longrightarrow>
     i + 8 \<le> box_start b \<and> box_start b - 8 < e \<and> box_type d (box_start b - 8) = p"
proof (induction d i e path arbitrary: b rule: findBox_scan.induct)
  case (1 d i e)
  then show ?case by simp
next
  case (2 d i e q qs)
  from "2.prems"(2) have q: "q = p" "qs = []"
    by simp_all
  show ?case
  proof (cases "i < e")
    case False
    with "2.prems" show ?thesis by (simp add: findBox_scan_done)
  next
    case True
    note lt = endbox_at_greater [OF True, of d]
    from "2.prems"(1) consider
      (here) "box_type d i = p" "b = \<lparr>box_data = d, box_start = i + 8, box_end = endbox_at d i e\<rparr>"
      | (later) "b \<in> set (findBox_scan d (endbox_at d i e) e (q # qs))"
      unfolding findBox_scan_step [OF True] q by (auto split: if_splits)
    then show ?thesis
    proof cases
      case here
      with True show ?thesis by simp
    next
      case later
      from "2.IH"(2) [OF True refl refl later "2.prems"(2)] lt show ?thesis by simp
    qed
  qed
qed

lemma findBox_scan_single:
  "b \<in> set (findBox_scan d i e [p]) \<Longrightarrow>
     i + 8 \<le> box_start b \<and> box_start b - 8 < e \<and> box_type d (box_start b - 8) = p"
  by (rule findBox_scan_single_aux) simp_all

text \<open>
  C10. \<open>findBox\<close> returns on every buffer and every path: the search written with
  nothing assumed about its termination returns a result, the one that the total
  function \<open>findBox\<close> gives. Each iteration of the
  sibling scan moves the cursor forward: by at least 2 bytes when the size field is
  greater than 1, and to the container's end when it is 0 or 1. The depth of the
  recursion is at most the length of the path.
\<close>

theorem findBox_terminates:
  "(\<exists>r. findBox_run d i end' path = Some r)
   \<and> findBox_run (box_data (box_of input)) (box_start (box_of input)) (box_end (box_of input)) path
       = Some (findBox input path)
   \<and> (i < end' \<longrightarrow> i < endbox_at d i end')
   \<and> (1 < readUint32 (Bytes d) i \<longrightarrow> i + 2 \<le> endbox_at d i end')
   \<and> (readUint32 (Bytes d) i \<le> 1 \<longrightarrow> endbox_at d i end' = end')
   \<and> findBox_depth d i end' path \<le> max 1 (length path)"
proof -
  have "\<exists>r. findBox_run d i end' path = Some r"
    by (simp add: findBox_run_eq)
  moreover have "findBox_run (box_data (box_of input)) (box_start (box_of input))
      (box_end (box_of input)) path = Some (findBox input path)"
    by (simp add: findBox_run_eq findBox_def)
  moreover have "i < end' \<longrightarrow> i < endbox_at d i end'"
    by (simp add: endbox_at_greater)
  moreover have "1 < readUint32 (Bytes d) i \<longrightarrow> i + 2 \<le> endbox_at d i end'"
    by (simp add: endbox_at_def Let_def)
  moreover have "readUint32 (Bytes d) i \<le> 1 \<longrightarrow> endbox_at d i end' = end'"
    by (simp add: endbox_at_def Let_def)
  moreover note findBox_depth_le [of d i end' path]
  ultimately show ?thesis
    by blast
qed

theorem findBox_terminates_witness:
  "(\<exists>r. findBox_run [0, 0, 0, 16, 109, 111, 111, 102, 0, 0, 0, 8, 116, 114, 97, 102] 0 16 [''moof'', ''traf''] = Some r)
   \<and> (0 :: nat) < 16
   \<and> 1 < readUint32 (Bytes [0, 0, 0, 16, 109, 111, 111, 102, 0, 0, 0, 8, 116, 114, 97, 102]) 0
   \<and> endbox_at [0, 0, 0, 16, 109, 111, 111, 102, 0, 0, 0, 8, 116, 114, 97, 102] 0 16 = 16
   \<and> readUint32 (Bytes [0, 0, 0, 1, 109, 111, 111, 102, 9, 9]) 0 \<le> 1
   \<and> endbox_at [0, 0, 0, 1, 109, 111, 111, 102, 9, 9] 0 10 = 10
   \<and> findBox_depth [0, 0, 0, 16, 109, 111, 111, 102, 0, 0, 0, 8, 116, 114, 97, 102] 0 16 [''moof'', ''traf''] \<le> 2"
  using findBox_terminates [where d = "[0, 0, 0, 16, 109, 111, 111, 102, 0, 0, 0, 8, 116, 114, 97, 102]"
      and i = 0 and end' = 16 and path = "[''moof'', ''traf'']"
      and input = "Bytes [0, 0, 0, 16, 109, 111, 111, 102, 0, 0, 0, 8, 116, 114, 97, 102]"]
    findBox_terminates [where d = "[0, 0, 0, 1, 109, 111, 111, 102, 9, 9]"
      and i = 0 and end' = 10 and path = "[''moof'']"
      and input = "Bytes [0, 0, 0, 1, 109, 111, 111, 102, 9, 9]"]
  by (simp add: byte_eval)

text \<open>
  A search with a path of several segments is the search for its last segment inside
  every box found for the segments before it.
\<close>

lemma findBox_scan_nested:
  assumes "ps \<noteq> []"
  shows "findBox_scan d i e (p # ps) =
     concat (map (\<lambda>c. findBox_scan d (box_start c) (box_end c) ps) (findBox_scan d i e [p]))"
proof (induction "e - i" arbitrary: i rule: less_induct)
  case less
  show ?case
  proof (cases "i < e")
    case False
    then show ?thesis by (simp add: findBox_scan_done)
  next
    case True
    have "e - endbox_at d i e < e - i"
      using endbox_at_greater [OF True, of d] True by (simp add: diff_less_mono2)
    from less.hyps [OF this]
    have IH: "findBox_scan d (endbox_at d i e) e (p # ps) =
        concat (map (\<lambda>c. findBox_scan d (box_start c) (box_end c) ps)
          (findBox_scan d (endbox_at d i e) e [p]))" .
    show ?thesis
      unfolding findBox_scan_step [OF True, of d p ps] findBox_scan_step [OF True, of d p "[]"] IH
      using assms by simp
  qed
qed

lemma concat_map_concat:
  "concat (map f (concat xss)) = concat (map (\<lambda>xs. concat (map f xs)) xss)"
  by (induction xss) simp_all

lemma findBox_scan_snoc:
  "ps \<noteq> [] \<Longrightarrow> findBox_scan d i e (ps @ [p]) =
     concat (map (\<lambda>c. findBox_scan d (box_start c) (box_end c) [p]) (findBox_scan d i e ps))"
proof (induction ps arbitrary: i e)
  case Nil
  then show ?case by simp
next
  case (Cons q qs)
  show ?case
  proof (cases "qs = []")
    case True
    then show ?thesis
      using findBox_scan_nested [of "[p]" d i e q] by simp
  next
    case False
    have "findBox_scan d i e ((q # qs) @ [p]) =
        concat (map (\<lambda>c. findBox_scan d (box_start c) (box_end c) (qs @ [p])) (findBox_scan d i e [q]))"
      using findBox_scan_nested [of "qs @ [p]" d i e q] by simp
    also have "\<dots> = concat (map (\<lambda>c. concat (map (\<lambda>c'. findBox_scan d (box_start c') (box_end c') [p])
        (findBox_scan d (box_start c) (box_end c) qs))) (findBox_scan d i e [q]))"
      by (simp add: Cons.IH [OF False])
    also have "\<dots> = concat (map (\<lambda>c'. findBox_scan d (box_start c') (box_end c') [p])
        (concat (map (\<lambda>c. findBox_scan d (box_start c) (box_end c) qs) (findBox_scan d i e [q]))))"
      by (simp add: concat_map_concat o_def)
    also have "\<dots> = concat (map (\<lambda>c'. findBox_scan d (box_start c') (box_end c') [p])
        (findBox_scan d i e (q # qs)))"
      by (simp add: findBox_scan_nested [OF False])
    finally show ?thesis .
  qed
qed

lemma findBox_scan_single_view:
  "b \<in> set (findBox_scan d i e [p]) \<Longrightarrow>
     \<exists>h. i \<le> h \<and> h < e \<and> box_type d h = p
       \<and> b = \<lparr>box_data = d, box_start = h + 8, box_end = endbox_at d h e\<rparr>"
proof (induction "e - i" arbitrary: i rule: less_induct)
  case less
  show ?case
  proof (cases "i < e")
    case False
    with less.prems show ?thesis by (simp add: findBox_scan_done)
  next
    case True
    note lt = endbox_at_greater [OF True, of d]
    from less.prems consider
      (here) "box_type d i = p" "b = \<lparr>box_data = d, box_start = i + 8, box_end = endbox_at d i e\<rparr>"
      | (later) "b \<in> set (findBox_scan d (endbox_at d i e) e [p])"
      unfolding findBox_scan_step [OF True] by (auto split: if_splits)
    then show ?thesis
    proof cases
      case here
      with True show ?thesis by blast
    next
      case later
      have "e - endbox_at d i e < e - i"
        using lt True by (simp add: diff_less_mono2)
      from less.hyps [OF this later] obtain h where
        "endbox_at d i e \<le> h" "h < e" "box_type d h = p"
        "b = \<lparr>box_data = d, box_start = h + 8, box_end = endbox_at d h e\<rparr>"
        by blast
      with lt show ?thesis
        by (intro exI [of _ h]) simp
    qed
  qed
qed

lemma findBox_enclosing:
  assumes "b \<in> set (findBox input path)"
  shows "\<exists>c. (if length path = 1 then c = box_of input else c \<in> set (findBox input (butlast path)))
     \<and> box_data c = box_data (box_of input)
     \<and> b \<in> set (findBox_scan (box_data c) (box_start c) (box_end c) [last path])"
proof -
  from assms have ne: "path \<noteq> []"
    by (auto simp add: findBox_def)
  define d where "d = box_data (box_of input)"
  show ?thesis
  proof (cases "length path = 1")
    case True
    then have "path = [last path]"
      by (cases path) auto
    with assms ne show ?thesis
      by (intro exI [of _ "box_of input"]) (simp add: findBox_def True)
  next
    case False
    with ne have bl: "butlast path \<noteq> []"
      by (cases path) auto
    have "path = butlast path @ [last path]"
      using ne by simp
    then have "findBox input path =
        concat (map (\<lambda>c. findBox_scan d (box_start c) (box_end c) [last path]) (findBox input (butlast path)))"
      using findBox_scan_snoc [OF bl, of d "box_start (box_of input)" "box_end (box_of input)" "last path"]
      by (simp add: findBox_def ne bl d_def)
    with assms obtain c where c: "c \<in> set (findBox input (butlast path))"
      and b: "b \<in> set (findBox_scan d (box_start c) (box_end c) [last path])"
      by auto
    from findBox_data [OF c] have "box_data c = d"
      by (simp add: d_def)
    with c b False show ?thesis
      by (intro exI [of _ c]) (simp add: d_def)
  qed
qed

text \<open>
  C2 (amended). Every view that \<open>findBox\<close> returns for a non-empty path lies in an
  enclosing container \<open>c\<close>: the input for a path of one segment, otherwise a view
  returned for the path without its last segment. It is the view of a box whose header
  is at an offset \<open>h\<close> inside \<open>c\<close>: its start is \<open>h + 8\<close>, and its end is
  \<open>h + size\<close> for a size field greater than 1 and the end of \<open>c\<close> otherwise. The
  search does not clamp: the view ends within \<open>c\<close> exactly when the size field is at
  most 1 or \<open>h + size\<close> does not exceed the end of \<open>c\<close>, and \<open>start \<le> end\<close>
  holds exactly when the size is at least 8, or at most 1 with 8 bytes left in \<open>c\<close>.
\<close>

theorem findBox_within_container:
  assumes "b \<in> set (findBox input path)"
  shows "\<exists>c h. (if length path = 1 then c = box_of input else c \<in> set (findBox input (butlast path)))
     \<and> box_data c = box_data (box_of input)
     \<and> box_start c \<le> h \<and> h < box_end c \<and> box_type (box_data c) h = last path
     \<and> b = \<lparr>box_data = box_data c, box_start = h + 8,
             box_end = (if 1 < readUint32 (Bytes (box_data c)) h
                        then h + readUint32 (Bytes (box_data c)) h else box_end c)\<rparr>
     \<and> (box_end b \<le> box_end c \<longleftrightarrow>
          readUint32 (Bytes (box_data c)) h \<le> 1 \<or> h + readUint32 (Bytes (box_data c)) h \<le> box_end c)
     \<and> (box_start b \<le> box_end b \<longleftrightarrow>
          8 \<le> readUint32 (Bytes (box_data c)) h
          \<or> readUint32 (Bytes (box_data c)) h \<le> 1 \<and> h + 8 \<le> box_end c)"
proof -
  from findBox_enclosing [OF assms] obtain c where
    c: "if length path = 1 then c = box_of input else c \<in> set (findBox input (butlast path))"
    and d: "box_data c = box_data (box_of input)"
    and b: "b \<in> set (findBox_scan (box_data c) (box_start c) (box_end c) [last path])"
    by blast
  from findBox_scan_single_view [OF b] obtain h where
    h: "box_start c \<le> h" "h < box_end c" "box_type (box_data c) h = last path"
    and v: "b = \<lparr>box_data = box_data c, box_start = h + 8, box_end = endbox_at (box_data c) h (box_end c)\<rparr>"
    by blast
  define size' where "size' = readUint32 (Bytes (box_data c)) h"
  have e: "endbox_at (box_data c) h (box_end c) = (if 1 < size' then h + size' else box_end c)"
    by (simp add: endbox_at_def Let_def size'_def)
  have "box_end b \<le> box_end c \<longleftrightarrow> size' \<le> 1 \<or> h + size' \<le> box_end c"
    unfolding v e by auto
  moreover have "box_start b \<le> box_end b \<longleftrightarrow> 8 \<le> size' \<or> size' \<le> 1 \<and> h + 8 \<le> box_end c"
    unfolding v e by auto
  ultimately show ?thesis
    using c d h v [unfolded e] unfolding size'_def by blast
qed

theorem findBox_within_container_witness:
  "\<lparr>box_data = [0, 0, 0, 16, 109, 111, 111, 102, 0, 0, 0, 8, 116, 114, 97, 102], box_start = 16, box_end = 16\<rparr>
     \<in> set (findBox (Bytes [0, 0, 0, 16, 109, 111, 111, 102, 0, 0, 0, 8, 116, 114, 97, 102]) [''moof'', ''traf''])
   \<and> findBox (Bytes [0, 0, 0, 16, 109, 111, 111, 102, 0, 0, 0, 8, 116, 114, 97, 102]) [''moof'']
       = [\<lparr>box_data = [0, 0, 0, 16, 109, 111, 111, 102, 0, 0, 0, 8, 116, 114, 97, 102],
            box_start = 8, box_end = 16\<rparr>]
   \<and> (\<exists>h. 8 \<le> h \<and> h < 16 \<and> h + 8 = 16
        \<and> box_type [0, 0, 0, 16, 109, 111, 111, 102, 0, 0, 0, 8, 116, 114, 97, 102] h = ''traf'')"
proof -
  define D :: Uint8Array where "D = [0, 0, 0, 16, 109, 111, 111, 102, 0, 0, 0, 8, 116, 114, 97, 102]"
  have t: "findBox (Bytes D) [''moof'', ''traf''] = [\<lparr>box_data = D, box_start = 16, box_end = 16\<rparr>]"
    unfolding D_def by (simp add: findBox_def findBox_scan.simps(2) byte_eval)
  have m: "findBox (Bytes D) [''moof''] = [\<lparr>box_data = D, box_start = 8, box_end = 16\<rparr>]"
    unfolding D_def by (simp add: findBox_def findBox_scan.simps(2) byte_eval)
  have i: "\<lparr>box_data = D, box_start = 16, box_end = 16\<rparr> \<in> set (findBox (Bytes D) [''moof'', ''traf''])"
    by (simp add: t)
  from findBox_within_container [OF i] obtain c h where
    "c \<in> set (findBox (Bytes D) [''moof''])" "box_start c \<le> h" "h < box_end c"
    "box_type (box_data c) h = ''traf''"
    "\<lparr>box_data = D, box_start = 16, box_end = 16\<rparr> = \<lparr>box_data = box_data c, box_start = h + 8,
       box_end = (if 1 < readUint32 (Bytes (box_data c)) h
                  then h + readUint32 (Bytes (box_data c)) h else box_end c)\<rparr>"
    by auto
  then have "8 \<le> h \<and> h < 16 \<and> h + 8 = 16 \<and> box_type D h = ''traf''"
    by (simp add: m)
  then have "\<exists>h. 8 \<le> h \<and> h < 16 \<and> h + 8 = 16 \<and> box_type D h = ''traf''" ..
  with i m show ?thesis
    unfolding D_def by simp
qed

text \<open>
  A size field of 100 in a buffer of 8 bytes gives a view that ends at 100; a size field
  of 2 gives a view that starts at 8 and ends at 2.
\<close>

theorem findBox_within_container_counterexample:
  "findBox (Bytes [0, 0, 0, 100, 109, 111, 111, 102]) [''moof'']
     = [\<lparr>box_data = [0, 0, 0, 100, 109, 111, 111, 102], box_start = 8, box_end = 100\<rparr>]
   \<and> length [0, 0, 0, 100, 109, 111, 111, 102 :: byte] = 8
   \<and> findBox (Bytes [0, 0, 0, 2, 109, 111, 111, 102]) [''moof'']
     = [\<lparr>box_data = [0, 0, 0, 2, 109, 111, 111, 102], box_start = 8, box_end = 2\<rparr>]"
  by (simp add: findBox_def findBox_scan.simps(2) byte_eval)

section \<open>Properties of the chunk-boundary detection\<close>

lemma sliceUint8_take: "h \<le> length d \<Longrightarrow> sliceUint8 d 0 (Some (int h)) = take h d"
  by (simp add: sliceUint8_def Let_def)

lemma sliceUint8_drop: "h \<le> length d \<Longrightarrow> sliceUint8 d (int h) None = drop h d"
  by (simp add: sliceUint8_def Let_def)

text \<open>
  C7. With fewer than two \<open>moof\<close> boxes found, \<open>valid\<close> is none and \<open>remainder\<close> is the
  whole buffer. With two or more, \<open>h\<close> being the offset of the last \<open>moof\<close>'s 8-byte
  header (it lies in the buffer and carries the type \<open>moof\<close>), \<open>valid\<close> is the bytes
  before \<open>h\<close>, \<open>remainder\<close> the bytes from \<open>h\<close> on, and the two together are the input.
\<close>

theorem segmentValidRange_split:
  "(length (findBox (Bytes d) [''moof'']) < 2 \<longrightarrow>
      segmentValidRange d = \<lparr>valid = None, remainder = Some d\<rparr>)
   \<and> (2 \<le> length (findBox (Bytes d) [''moof'']) \<longrightarrow>
      (\<exists>h. h + 8 = box_start (last (findBox (Bytes d) [''moof'']))
         \<and> h < length d \<and> box_type d h = ''moof''
         \<and> segmentValidRange d = \<lparr>valid = Some (take h d), remainder = Some (drop h d)\<rparr>
         \<and> take h d @ drop h d = d))"
proof (intro conjI impI)
  assume "length (findBox (Bytes d) [''moof'']) < 2"
  then show "segmentValidRange d = \<lparr>valid = None, remainder = Some d\<rparr>"
    by (simp add: segmentValidRange_def Let_def)
next
  define moofs where "moofs = findBox (Bytes d) [''moof'']"
  assume "2 \<le> length (findBox (Bytes d) [''moof''])"
  then have len: "2 \<le> length moofs"
    by (simp add: moofs_def)
  then have ne: "moofs \<noteq> []"
    by auto
  have l: "moofs ! (length moofs - 1) = last moofs"
    using ne by (simp add: last_conv_nth)
  have "last moofs \<in> set moofs"
    using ne by simp
  then have "last moofs \<in> set (findBox_scan d 0 (length d) [''moof''])"
    by (simp add: moofs_def findBox_def)
  from findBox_scan_single [OF this]
  have s: "8 \<le> box_start (last moofs)" "box_start (last moofs) - 8 < length d"
    "box_type d (box_start (last moofs) - 8) = ''moof''"
    by simp_all
  define h where "h = box_start (last moofs) - 8"
  have i: "int (box_start (last moofs)) - 8 = int h"
    using s(1) by (simp add: h_def)
  have "segmentValidRange d = \<lparr>valid = Some (take h d), remainder = Some (drop h d)\<rparr>"
    using len s(2) unfolding segmentValidRange_def Let_def moofs_def [symmetric] l i
    by (simp add: sliceUint8_take sliceUint8_drop h_def)
  with s show "\<exists>h. h + 8 = box_start (last moofs)
         \<and> h < length d \<and> box_type d h = ''moof''
         \<and> segmentValidRange d = \<lparr>valid = Some (take h d), remainder = Some (drop h d)\<rparr>
         \<and> take h d @ drop h d = d"
    by (intro exI [of _ h]) (simp add: h_def)
qed

theorem segmentValidRange_split_witness:
  "length (findBox (Bytes [0, 0, 0, 8, 109, 111, 111, 102]) [''moof'']) < 2
   \<and> segmentValidRange [0, 0, 0, 8, 109, 111, 111, 102]
       = \<lparr>valid = None, remainder = Some [0, 0, 0, 8, 109, 111, 111, 102]\<rparr>
   \<and> 2 \<le> length (findBox (Bytes [0, 0, 0, 9, 109, 111, 111, 102, 7, 0, 0, 0, 8, 109, 111, 111, 102]) [''moof''])
   \<and> segmentValidRange [0, 0, 0, 9, 109, 111, 111, 102, 7, 0, 0, 0, 8, 109, 111, 111, 102]
       = \<lparr>valid = Some [0, 0, 0, 9, 109, 111, 111, 102, 7],
          remainder = Some [0, 0, 0, 8, 109, 111, 111, 102]\<rparr>"
  using segmentValidRange_split [of "[0, 0, 0, 8, 109, 111, 111, 102]"]
    segmentValidRange_split [of "[0, 0, 0, 9, 109, 111, 111, 102, 7, 0, 0, 0, 8, 109, 111, 111, 102]"]
  by (simp add: segmentValidRange_def sliceUint8_def findBox_def findBox_scan.simps(2) byte_eval)

section \<open>Properties of the emulation-prevention stripper\<close>

declare findEmulationPreventionBytes.simps [simp del] copyWithoutPositions.simps [simp del]


lemma epb_pos_short: "length xs < 3 \<Longrightarrow> epb_pos i xs = []"
  by (induction i xs rule: epb_pos.induct) simp_all

lemma drop3: "i + 2 < length d \<Longrightarrow> drop i d = d ! i # d ! (i + 1) # d ! (i + 2) # drop (i + 3) d"
proof -
  assume a: "i + 2 < length d"
  have "drop i d = d ! i # drop (Suc i) d"
    using a by (simp add: Cons_nth_drop_Suc)
  also have "drop (Suc i) d = d ! (i + 1) # drop (Suc (Suc i)) d"
    using a by (simp add: Cons_nth_drop_Suc)
  also have "drop (Suc (Suc i)) d = d ! (i + 2) # drop (i + 3) d"
    using a Cons_nth_drop_Suc [of "i + 2" d] by (simp add: numeral_3_eq_3)
  finally show ?thesis .
qed

lemma scan_eq:
  "findEmulationPreventionBytes d i ps = ps @ epb_pos i (drop i d)"
proof (induction d i ps rule: findEmulationPreventionBytes.induct)
  case (1 d i ps)
  show ?case
  proof (cases "int i < int (length d) - 2")
    case False
    then have "epb_pos i (drop i d) = []"
      by (intro epb_pos_short) simp
    with False show ?thesis
      by (simp add: findEmulationPreventionBytes.simps [of d i])
  next
    case True
    then have lt: "i + 2 < length d"
      by simp
    note dr = drop3 [OF lt]
    have dr2: "drop (i + 2) d = d ! (i + 2) # drop (i + 3) d"
      using lt Cons_nth_drop_Suc [of "i + 2" d] by (simp add: numeral_3_eq_3)
    have dr1: "drop (i + 1) d = d ! (i + 1) # d ! (i + 2) # drop (i + 3) d"
      using lt Cons_nth_drop_Suc [of "i + 1" d] dr2 by simp
    have el: "elem d i = Some (d ! i)" "elem d (i + 1) = Some (d ! (i + 1))"
      "elem d (i + 2) = Some (d ! (i + 2))"
      using lt by (simp_all add: elem_def)
    show ?thesis
    proof (cases "elem d i = Some 0 \<and> elem d (i + 1) = Some 0 \<and> elem d (i + 2) = Some 3")
      case m: True
      have "findEmulationPreventionBytes d i ps = findEmulationPreventionBytes d (i + 2) (ps @ [i + 2])"
        using True m by (subst findEmulationPreventionBytes.simps) simp
      also have "\<dots> = (ps @ [i + 2]) @ epb_pos (i + 2) (drop (i + 2) d)"
        using "1.IH"(1) [OF True m] .
      also have "\<dots> = ps @ epb_pos i (drop i d)"
      proof -
        from m el have v: "d ! i = 0" "d ! (i + 1) = 0" "d ! (i + 2) = 3"
          by simp_all
        have "epb_pos i (drop i d) = epb_pos i (0 # 0 # 3 # drop (i + 3) d)"
          by (simp only: dr v)
        also have "\<dots> = (i + 2) # epb_pos (i + 2) (3 # drop (i + 3) d)"
          by simp
        also have "3 # drop (i + 3) d = drop (i + 2) d"
          by (simp only: dr2 v)
        finally show ?thesis
          by simp
      qed
      finally show ?thesis .
    next
      case m: False
      have "findEmulationPreventionBytes d i ps = findEmulationPreventionBytes d (i + 1) ps"
        by (subst findEmulationPreventionBytes.simps) (simp only: True m if_True if_False)
      also have "\<dots> = ps @ epb_pos (i + 1) (drop (i + 1) d)"
        using "1.IH"(2) [OF True m] .
      also have "\<dots> = ps @ epb_pos i (drop i d)"
      proof -
        from m el have v: "\<not> (d ! i = 0 \<and> d ! (i + 1) = 0 \<and> d ! (i + 2) = 3)"
          by simp
        have "epb_pos i (drop i d) = epb_pos i (d ! i # d ! (i + 1) # d ! (i + 2) # drop (i + 3) d)"
          by (simp only: dr)
        also have "\<dots> = epb_pos (i + 1) (d ! (i + 1) # d ! (i + 2) # drop (i + 3) d)"
          using v by (simp only: epb_pos.simps if_False)
        also have "d ! (i + 1) # d ! (i + 2) # drop (i + 3) d = drop (i + 1) d"
          by (simp only: dr1)
        finally show ?thesis
          by simp
      qed
      finally show ?thesis .
    qed
  qed
qed

lemma epb_pos_ge: "p \<in> set (epb_pos i xs) \<Longrightarrow> i + 2 \<le> p"
  by (induction i xs rule: epb_pos.induct) (auto split: if_splits)

lemma epb_pos_three: "epb_pos i (3 # xs) = epb_pos (i + 1) xs"
proof (cases xs)
  case Nil
  then show ?thesis by simp
next
  case (Cons b ys)
  then show ?thesis by (cases ys) simp_all
qed

lemma skip_at_before:
  "\<forall>p \<in> set ps. s < p \<Longrightarrow> skip_at ps s (x # xs) = x # skip_at ps (s + 1) xs"
  by (cases ps) auto

lemma skip_at_Nil [simp]: "skip_at [] s xs = xs"
  by (induction xs arbitrary: s) simp_all

lemma skip_at_epb_pos: "skip_at (epb_pos i xs) i xs = strip_epb xs"
proof (induction xs arbitrary: i rule: strip_epb.induct)
  case (1 a b c xs)
  show ?case
  proof (cases "a = 0 \<and> b = 0 \<and> c = 3")
    case True
    define Q where "Q = epb_pos (i + 3) xs"
    have q: "\<forall>p \<in> set Q. i + 5 \<le> p"
    proof
      fix p
      assume "p \<in> set Q"
      from epb_pos_ge [OF this [unfolded Q_def]] show "i + 5 \<le> p"
        by simp
    qed
    have e: "epb_pos i (a # b # c # xs) = (i + 2) # Q"
      using True epb_pos_three [of "i + 2" xs] by (simp add: Q_def numeral_3_eq_3 add.commute)
    have r: "skip_at Q (i + 3) xs = strip_epb xs"
      using "1.IH"(1) [OF True, of "i + 3"] by (simp add: Q_def)
    have "skip_at ((i + 2) # Q) i (a # b # c # xs) = a # b # skip_at Q (i + 3) xs"
    proof (cases xs)
      case Nil
      then show ?thesis by simp
    next
      case (Cons y ys)
      have "skip_at ((i + 2) # Q) i (a # b # c # y # ys)
          = a # skip_at ((i + 2) # Q) (i + 1) (b # c # y # ys)"
        by simp
      also have "skip_at ((i + 2) # Q) (i + 1) (b # c # y # ys)
          = b # skip_at ((i + 2) # Q) (i + 2) (c # y # ys)"
        by simp
      also have "skip_at ((i + 2) # Q) (i + 2) (c # y # ys) = y # skip_at Q (i + 4) ys"
        by (simp add: numeral_eq_Suc)
      also have "y # skip_at Q (i + 4) ys = skip_at Q (i + 3) (y # ys)"
      proof -
        have "\<forall>p \<in> set Q. i + 3 < p"
          using q by auto
        from skip_at_before [OF this, of y ys] show ?thesis
          by (simp add: numeral_eq_Suc)
      qed
      finally show ?thesis
        using Cons by simp
    qed
    with e r True show ?thesis
      by simp
  next
    case False
    define Q where "Q = epb_pos (i + 1) (b # c # xs)"
    have q: "\<forall>p \<in> set Q. i < p"
    proof
      fix p
      assume "p \<in> set Q"
      from epb_pos_ge [OF this [unfolded Q_def]] show "i < p"
        by simp
    qed
    have e: "epb_pos i (a # b # c # xs) = Q"
      using False unfolding Q_def by (simp only: epb_pos.simps if_False)
    have r: "skip_at Q (i + 1) (b # c # xs) = strip_epb (b # c # xs)"
      using "1.IH"(2) [OF False, of "i + 1"] by (simp add: Q_def)
    have st: "skip_at Q i (a # b # c # xs) = a # skip_at Q (i + 1) (b # c # xs)"
      using q by (rule skip_at_before)
    have sp: "strip_epb (a # b # c # xs) = a # strip_epb (b # c # xs)"
      by (simp only: strip_epb.simps False if_False)
    show ?thesis
      by (simp only: e st r sp)
  qed
qed simp_all

lemma length_strip_epb: "length (strip_epb xs) + length (epb_pos i xs) = length xs"
proof (induction xs arbitrary: i rule: strip_epb.induct)
  case (1 a b c xs)
  show ?case
  proof (cases "a = 0 \<and> b = 0 \<and> c = 3")
    case True
    have "epb_pos i (a # b # c # xs) = (i + 2) # epb_pos (i + 3) xs"
      using True epb_pos_three [of "i + 2" xs] by (simp add: numeral_3_eq_3 add.commute)
    with True "1.IH"(1) [OF True, of "i + 3"] show ?thesis
      by simp
  next
    case False
    have e: "epb_pos i (a # b # c # xs) = epb_pos (i + 1) (b # c # xs)"
      using False by (simp only: epb_pos.simps if_False)
    have sp: "strip_epb (a # b # c # xs) = a # strip_epb (b # c # xs)"
      by (simp only: strip_epb.simps False if_False)
    from "1.IH"(2) [OF False, of "i + 1"] show ?thesis
      unfolding e sp by simp
  qed
qed simp_all


lemma take_Suc_update: "i < length nd \<Longrightarrow> take (Suc i) (nd[i := v]) = take i nd @ [v]"
  by (simp add: take_Suc_conv_app_nth)

lemma copy_eq:
  "length nd = n \<Longrightarrow> i \<le> n \<Longrightarrow> n - i \<le> length (skip_at ps s (drop s d)) \<Longrightarrow>
     copyWithoutPositions d n i s ps nd = take i nd @ take (n - i) (skip_at ps s (drop s d))"
proof (induction d n i s ps nd rule: copyWithoutPositions.induct)
  case (1 d n i s ps nd)
  show ?case
  proof (cases "i < n")
    case False
    with "1.prems" show ?thesis
      by (subst copyWithoutPositions.simps) simp
  next
    case True
    define R where "R = skip_at ps s (drop s d)"
    have pos: "0 < length R"
      using True "1.prems"(3) unfolding R_def by linarith
    then have sl: "s < length d"
      by (cases "s < length d") (simp_all add: R_def)
    have dr: "drop s d = d ! s # drop (Suc s) d"
      using sl by (simp add: Cons_nth_drop_Suc)
    have il: "i < length nd"
      using True "1.prems"(1) by simp
    show ?thesis
    proof (cases "ps \<noteq> [] \<and> s = hd ps")
      case skip: True
      have R1: "R = (case drop (Suc s) d of [] \<Rightarrow> [] | y # ys \<Rightarrow> y # skip_at (tl ps) (s + 2) ys)"
        unfolding R_def dr using skip by (auto split: list.split)
      with pos have sl2: "Suc s < length d"
        by (cases "Suc s < length d") simp_all
      have dr2: "drop (Suc s) d = d ! (Suc s) # drop (s + 2) d"
        using sl2 Cons_nth_drop_Suc [of "Suc s" d] by simp
      have R2: "R = d ! (Suc s) # skip_at (tl ps) (s + 2) (drop (s + 2) d)"
        unfolding R1 dr2 by simp
      have el: "ToUint8 (elem d (s + 1)) = d ! (Suc s)"
        using sl2 by (simp add: ToUint8_def elem_def)
      have le: "n - (i + 1) \<le> length (skip_at (tl ps) (s + 2) (drop (s + 2) d))"
        using "1.prems"(3) True unfolding R_def [symmetric] R2 by simp
      have "copyWithoutPositions d n i s ps nd
          = copyWithoutPositions d n (i + 1) (s + 2) (tl ps) (nd[i := ToUint8 (elem d (s + 1))])"
      proof -
        have c: "(ps \<noteq> [] \<and> s = hd ps) = True"
          using skip by simp
        show ?thesis
          by (subst copyWithoutPositions.simps) (simp only: True c if_True)
      qed
      also have "\<dots> = take (i + 1) (nd[i := ToUint8 (elem d (s + 1))])
          @ take (n - (i + 1)) (skip_at (tl ps) (s + 2) (drop (s + 2) d))"
        using "1.IH"(1) [OF True skip _ _ le] True "1.prems"(1) by simp
      also have "\<dots> = take i nd @ take (n - i) R"
        using il True unfolding R2 el by (simp add: take_Suc_update take_Cons')
      finally show ?thesis
        by (simp add: R_def)
    next
      case keep: False
      have R2: "R = d ! s # skip_at ps (s + 1) (drop (s + 1) d)"
        unfolding R_def using keep by (subst dr) (simp only: skip_at.simps if_False Suc_eq_plus1)
      have el: "ToUint8 (elem d s) = d ! s"
        using sl by (simp add: ToUint8_def elem_def)
      have le: "n - (i + 1) \<le> length (skip_at ps (s + 1) (drop (s + 1) d))"
        using "1.prems"(3) True unfolding R_def [symmetric] R2 by simp
      have "copyWithoutPositions d n i s ps nd
          = copyWithoutPositions d n (i + 1) (s + 1) ps (nd[i := ToUint8 (elem d s)])"
        by (subst copyWithoutPositions.simps) (simp only: True keep if_True if_False)
      also have "\<dots> = take (i + 1) (nd[i := ToUint8 (elem d s)])
          @ take (n - (i + 1)) (skip_at ps (s + 1) (drop (s + 1) d))"
        using "1.IH"(2) [OF True keep _ _ le] True "1.prems"(1) by simp
      also have "\<dots> = take i nd @ take (n - i) R"
        using il True unfolding R2 el by (simp add: take_Suc_update take_Cons')
      finally show ?thesis
        by (simp add: R_def)
    qed
  qed
qed

lemma scan_from_one:
  "findEmulationPreventionBytes (x # xs) 1 [] = epb_pos 1 xs"
  by (simp add: scan_eq)

text \<open>
  C1 (amended). \<open>discardEmulationPreventionBytes\<close> keeps the first byte as it is and
  collapses every \<open>0x00 0x00 0x03\<close> triple of the rest to \<open>0x00 0x00\<close>, all other
  bytes kept in order. The scan starts at index 1, so a triple that begins at index 0
  stays.
\<close>

theorem discardEmulationPreventionBytes_strip:
  "discardEmulationPreventionBytes d = (case d of [] \<Rightarrow> [] | x # xs \<Rightarrow> x # strip_epb xs)"
proof (cases d)
  case Nil
  have "findEmulationPreventionBytes [] 1 [] = []"
    by (subst findEmulationPreventionBytes.simps) simp
  with Nil show ?thesis
    by (simp add: discardEmulationPreventionBytes_def)
next
  case (Cons x xs)
  define P where "P = epb_pos 1 xs"
  have sc: "findEmulationPreventionBytes d 1 [] = P"
    unfolding Cons P_def by (rule scan_from_one)
  have st: "skip_at P 1 xs = strip_epb xs"
    unfolding P_def by (rule skip_at_epb_pos)
  have ln: "length (strip_epb xs) + length P = length xs"
    unfolding P_def by (rule length_strip_epb)
  show ?thesis
  proof (cases "P = []")
    case True
    with st have "strip_epb xs = xs"
      by simp
    with True sc Cons show ?thesis
      by (simp add: discardEmulationPreventionBytes_def)
  next
    case False
    have gt: "\<forall>p \<in> set P. 0 < p"
    proof
      fix p
      assume "p \<in> set P"
      from epb_pos_ge [OF this [unfolded P_def]] show "0 < p"
        by simp
    qed
    define n where "n = length d - length P"
    have sk: "skip_at P 0 d = x # strip_epb xs"
      using skip_at_before [OF gt, of x xs] st by (simp add: Cons)
    have n: "n = length (x # strip_epb xs)"
      using ln by (simp add: n_def Cons)
    have "copyWithoutPositions d n 0 0 P (replicate n 0)
        = take 0 (replicate n 0) @ take (n - 0) (skip_at P 0 (drop 0 d))"
      by (rule copy_eq) (simp_all add: sk n)
    also have "\<dots> = x # strip_epb xs"
      by (simp add: sk n)
    finally show ?thesis
      using False sc Cons by (simp add: discardEmulationPreventionBytes_def n_def)
  qed
qed

theorem discardEmulationPreventionBytes_strip_witness:
  "discardEmulationPreventionBytes [6, 0, 0, 3, 1] = [6, 0, 0, 1]"
  using discardEmulationPreventionBytes_strip [of "[6, 0, 0, 3, 1]"] by simp

text \<open>The input \<open>0x00 0x00 0x03 0x01\<close> itself is returned unchanged.\<close>

theorem discardEmulationPreventionBytes_strip_counterexample:
  "discardEmulationPreventionBytes [0, 0, 3, 1] = [0, 0, 3, 1]"
  by (simp add: discardEmulationPreventionBytes_def findEmulationPreventionBytes.simps elem_def)

section \<open>Properties of the numbers\<close>

lemma round_half_even_of_int [simp]: "round_half_even (of_int k) = k"
  by (simp add: round_half_even_def)

lemma round_half_even_ge_floor: "\<lfloor>x\<rfloor> \<le> round_half_even x"
  by (simp add: round_half_even_def Let_def)

lemma round_half_even_le_ceiling: "round_half_even x \<le> \<lceil>x\<rceil>"
proof -
  have "\<lfloor>x\<rfloor> + 1 \<le> \<lceil>x\<rceil>" if "x \<noteq> of_int \<lfloor>x\<rfloor>"
    using that by (metis ceiling_altdef order_refl)
  moreover have "x - of_int \<lfloor>x\<rfloor> = 0" if "x = of_int \<lfloor>x\<rfloor>"
    using that by simp
  ultimately show ?thesis
    unfolding round_half_even_def Let_def
    by (cases "x = of_int \<lfloor>x\<rfloor>") (auto simp add: ceiling_altdef)
qed

lemma round_half_even_ge: "of_int k \<le> x \<Longrightarrow> k \<le> round_half_even x"
proof -
  assume "of_int k \<le> x"
  then have "k \<le> \<lfloor>x\<rfloor>" by (simp add: le_floor_iff)
  with round_half_even_ge_floor [of x] show ?thesis by simp
qed

lemma round_half_even_le: "x \<le> of_int k \<Longrightarrow> round_half_even x \<le> k"
proof -
  assume "x \<le> of_int k"
  then have "\<lceil>x\<rceil> \<le> k" by (simp add: ceiling_le_iff)
  with round_half_even_le_ceiling [of x] show ?thesis by simp
qed

lemma pow2_less_iff [simp]: "(2 :: rat) powi a < 2 powi b \<longleftrightarrow> a < b"
proof
  assume "(2 :: rat) powi a < 2 powi b"
  show "a < b"
  proof (rule ccontr)
    assume "\<not> a < b"
    then have "(2 :: rat) powi b \<le> 2 powi a"
      by (intro power_int_increasing) simp_all
    with \<open>(2 :: rat) powi a < 2 powi b\<close> show False by simp
  qed
next
  assume "a < b"
  then show "(2 :: rat) powi a < 2 powi b"
    by (intro power_int_strict_increasing) simp_all
qed

lemma pow2_le_iff [simp]: "(2 :: rat) powi a \<le> 2 powi b \<longleftrightarrow> a \<le> b"
  using pow2_less_iff [of b a] by (simp only: not_less [symmetric])

lemma bitlen_pos: "0 < n \<Longrightarrow> 0 < bitlen n"
  using bitlen_nonneg [of n] bitlen_eq_zero_iff [of n] by simp

lemma ilog2_bounds:
  assumes "0 < x"
  shows "2 powi ilog2 x \<le> x" and "x < 2 powi (ilog2 x + 1)"
proof -
  have "2 powi ilog2 x \<le> x \<and> x < 2 powi (ilog2 x + 1)"
  proof (cases "1 \<le> x")
    case True
    define n where "n = \<lfloor>x\<rfloor>"
    have n: "0 < n" using True by (simp add: n_def)
    from bitlen_bounds [OF n] have b: "2 ^ nat (bitlen n - 1) \<le> n" "n < 2 ^ nat (bitlen n)"
      by simp_all
    have p: "0 < bitlen n" using n by (rule bitlen_pos)
    have "rat_of_int (2 ^ nat (bitlen n - 1)) \<le> of_int n"
      using b(1) by (simp only: of_int_le_iff)
    also have "\<dots> \<le> x" by (simp add: n_def)
    finally have lo: "2 powi (bitlen n - 1) \<le> x"
      using p by (simp add: power_int_def)
    have "x < of_int (n + 1)" using floor_correct [of x] by (simp add: n_def)
    also have "\<dots> \<le> of_int (2 ^ nat (bitlen n))"
      using b(2) by (simp only: of_int_le_iff)
    finally have hi: "x < 2 powi (bitlen n)"
      using p by (simp add: power_int_def)
    from lo hi True show ?thesis
      by (simp add: ilog2_def n_def)
  next
    case False
    define c where "c = \<lceil>1 / x\<rceil>"
    have x1: "1 < 1 / x" using assms False by simp
    have c2: "2 \<le> c" using x1 by (simp add: c_def le_ceiling_iff)
    define n where "n = c - 1"
    have n: "0 < n" using c2 by (simp add: n_def)
    from bitlen_bounds [OF n] have b: "2 ^ nat (bitlen n - 1) \<le> n" "n < 2 ^ nat (bitlen n)"
      by simp_all
    have p: "0 < bitlen n" using n by (rule bitlen_pos)
    have "1 / x \<le> of_int c" by (simp add: c_def)
    also have "\<dots> \<le> of_int (2 ^ nat (bitlen n))"
      using b(2) by (simp only: of_int_le_iff) (simp add: n_def)
    finally have "1 / x \<le> 2 ^ nat (bitlen n)" by simp
    then have "1 \<le> 2 ^ nat (bitlen n) * x"
      using assms by (simp add: field_simps)
    then have lo: "2 powi (- bitlen n) \<le> x"
      using p by (simp add: power_int_def field_simps)
    have "2 ^ nat (bitlen n - 1) < c"
      using b(1) by (simp add: n_def)
    then have "rat_of_int (2 ^ nat (bitlen n - 1)) < 1 / x"
      unfolding c_def by (simp only: less_ceiling_iff)
    then have "2 ^ nat (bitlen n - 1) * x < 1"
      using assms by (simp add: field_simps)
    then have "x < 1 / 2 ^ nat (bitlen n - 1)"
      by (simp add: field_simps)
    also have "\<dots> = 2 powi (- bitlen n + 1)"
      using power_int_minus_divide [of "2 :: rat" "bitlen n - 1"] p
      by (simp add: power_int_nonneg_exp)
    finally have hi: "x < 2 powi (- bitlen n + 1)" .
    from lo hi False show ?thesis
      by (simp add: ilog2_def c_def n_def)
  qed
  then show "2 powi ilog2 x \<le> x" and "x < 2 powi (ilog2 x + 1)"
    by simp_all
qed

lemma ilog2_unique:
  assumes "0 < x" "2 powi k \<le> x" "x < 2 powi (k + 1)"
  shows "ilog2 x = k"
proof -
  from ilog2_bounds [OF assms(1)] assms(2,3)
  have "(2 :: rat) powi ilog2 x < 2 powi (k + 1)" "(2 :: rat) powi k < 2 powi (ilog2 x + 1)"
    by (blast intro: le_less_trans)+
  then have "ilog2 x < k + 1" "k < ilog2 x + 1"
    by simp_all
  then show ?thesis by simp
qed

lemma ilog2_mono: "0 < x \<Longrightarrow> x \<le> y \<Longrightarrow> ilog2 x \<le> ilog2 y"
proof -
  assume x: "0 < x" and xy: "x \<le> y"
  then have y: "0 < y" by simp
  have "(2 :: rat) powi ilog2 x \<le> x" using ilog2_bounds(1) [OF x] .
  also note xy
  also have "y < 2 powi (ilog2 y + 1)" using ilog2_bounds(2) [OF y] .
  finally show ?thesis by simp
qed

lemma ilog2_scale: "0 < x \<Longrightarrow> ilog2 (x * 2 powi k) = ilog2 x + k"
proof (rule ilog2_unique)
  assume x: "0 < x"
  then show "0 < x * 2 powi k" by simp
  have "(2 :: rat) powi (ilog2 x + k) = 2 powi ilog2 x * 2 powi k"
    by (simp add: power_int_add)
  also have "\<dots> \<le> x * 2 powi k"
    using ilog2_bounds(1) [OF x] by (simp add: mult_right_mono)
  finally show "2 powi (ilog2 x + k) \<le> x * 2 powi k" .
  have "x * 2 powi k < 2 powi (ilog2 x + 1) * 2 powi k"
    using ilog2_bounds(2) [OF x] by (simp add: mult_strict_right_mono)
  also have "\<dots> = 2 powi (ilog2 x + k + 1)"
    by (simp add: power_int_add)
  finally show "x * 2 powi k < 2 powi (ilog2 x + k + 1)" .
qed

lemma ilog2_less: "0 < x \<Longrightarrow> x < 2 powi k \<Longrightarrow> ilog2 x < k"
proof -
  assume x: "0 < x" and k: "x < 2 powi k"
  from ilog2_bounds(1) [OF x] k have "(2 :: rat) powi ilog2 x < 2 powi k"
    by (rule le_less_trans)
  then show ?thesis by simp
qed

lemma ilog2_ge: "0 < x \<Longrightarrow> 2 powi k \<le> x \<Longrightarrow> k \<le> ilog2 x"
proof -
  assume x: "0 < x" and k: "2 powi k \<le> x"
  from k ilog2_bounds(2) [OF x] have "(2 :: rat) powi k < 2 powi (ilog2 x + 1)"
    by (rule le_less_trans)
  then show ?thesis by simp
qed

lemma ulp_exponent_ge: "- 1074 \<le> ulp_exponent x"
  by (simp add: ulp_exponent_def)

lemma ulp_exponent_minus [simp]: "ulp_exponent (- x) = ulp_exponent x"
  by (simp add: ulp_exponent_def)

lemma ulp_exponent_mono: "x \<noteq> 0 \<Longrightarrow> \<bar>x\<bar> \<le> \<bar>y\<bar> \<Longrightarrow> ulp_exponent x \<le> ulp_exponent y"
  using ilog2_mono [of "\<bar>x\<bar>" "\<bar>y\<bar>"] by (simp add: ulp_exponent_def)

lemma significand_less:
  assumes "x \<noteq> 0"
  shows "\<bar>x\<bar> / 2 powi ulp_exponent x < 2 ^ 53"
proof -
  have x: "0 < \<bar>x\<bar>" using assms by simp
  have "\<bar>x\<bar> < 2 powi (ilog2 \<bar>x\<bar> + 1)" using ilog2_bounds(2) [OF x] .
  also have "\<dots> \<le> 2 powi (ulp_exponent x + 53)"
    by (simp add: ulp_exponent_def)
  also have "\<dots> = 2 powi ulp_exponent x * 2 ^ 53"
    by (simp add: power_int_add)
  finally show ?thesis
    by (simp add: field_simps)
qed

lemma on_grid:
  assumes "e' \<le> e"
  shows "of_int m * 2 powi e / 2 powi e' = (of_int (m * 2 ^ nat (e - e')) :: rat)"
proof -
  have "(2 :: rat) powi e = 2 powi (e - e') * 2 powi e'"
    by (simp add: power_int_add [symmetric])
  also have "(2 :: rat) powi (e - e') = 2 ^ nat (e - e')"
    using assms by (simp add: power_int_nonneg_exp)
  finally show ?thesis by simp
qed

lemma to_double_Finite_iff:
  "to_double x = Finite y \<longleftrightarrow>
     (if x = 0 then y = 0
      else y = of_int (round_half_even (x / 2 powi ulp_exponent x)) * 2 powi ulp_exponent x
           \<and> y < 2 ^ 1024 \<and> - (2 ^ 1024) < y)"
  by (auto simp add: to_double_def Let_def)

lemma representable:
  assumes x: "x = of_int m * 2 powi e" and m: "\<bar>m\<bar> \<le> 2 ^ 53" and e: "- 1074 \<le> e"
    and b: "\<bar>x\<bar> < 2 ^ 1024"
  shows "to_double x = Finite x"
proof (cases "x = 0")
  case True
  then show ?thesis by (simp add: to_double_def)
next
  case False
  then have m0: "m \<noteq> 0" using x by auto
  then have am: "0 < (of_int \<bar>m\<bar> :: rat)" by simp
  have ax: "\<bar>x\<bar> = of_int \<bar>m\<bar> * 2 powi e"
    by (simp add: x abs_mult)
  have il: "ilog2 \<bar>x\<bar> = ilog2 (of_int \<bar>m\<bar>) + e"
    unfolding ax using am by (rule ilog2_scale)
  have "\<exists>k. x / 2 powi ulp_exponent x = of_int k"
  proof (cases "\<bar>m\<bar> < 2 ^ 53")
    case True
    then have "(of_int \<bar>m\<bar> :: rat) < of_int (2 ^ 53)"
      by (simp only: of_int_less_iff)
    then have "(of_int \<bar>m\<bar> :: rat) < 2 powi 53"
      by simp
    from ilog2_less [OF am this] have "ulp_exponent x \<le> e"
      using e by (simp add: ulp_exponent_def il)
    from on_grid [OF this, of m] show ?thesis
      unfolding x by blast
  next
    case False
    with m have m53: "\<bar>m\<bar> = 2 ^ 53" by simp
    then have "(of_int \<bar>m\<bar> :: rat) = 2 powi 53" by simp
    then have "ilog2 (of_int \<bar>m\<bar>) = 53"
      by (intro ilog2_unique) simp_all
    then have u: "ulp_exponent x = e + 1"
      using e by (simp add: ulp_exponent_def il)
    have "2 dvd \<bar>m\<bar>" unfolding m53 by simp
    then have "even m" by (simp only: dvd_abs_iff)
    then obtain h where h: "m = 2 * h" by (elim evenE)
    have "x / 2 powi (e + 1) = of_int h"
      unfolding x h by (simp add: power_int_add)
    then show ?thesis unfolding u by blast
  qed
  then obtain k where k: "x / 2 powi ulp_exponent x = of_int k" ..
  then have "of_int k * 2 powi ulp_exponent x = x"
    by (simp add: field_simps)
  then have "of_int (round_half_even (x / 2 powi ulp_exponent x)) * 2 powi ulp_exponent x = x"
    unfolding k by simp
  with b False show ?thesis
    by (simp add: to_double_Finite_iff abs_less_iff)
qed

lemma to_double_of_int: "\<bar>k\<bar> \<le> 2 ^ 53 \<Longrightarrow> to_double (of_int k) = Finite (of_int k)"
proof (rule representable [where m = k and e = 0])
  assume "\<bar>k\<bar> \<le> 2 ^ 53"
  then show "\<bar>k\<bar> \<le> 2 ^ 53" .
  have "\<bar>k\<bar> < 2 ^ 1024" using \<open>\<bar>k\<bar> \<le> 2 ^ 53\<close> by simp
  then have "(of_int \<bar>k\<bar> :: rat) < of_int (2 ^ 1024)"
    by (simp only: of_int_less_iff)
  then show "\<bar>rat_of_int k\<bar> < 2 ^ 1024" by simp
qed simp_all

lemma to_double_of_nat: "n \<le> 2 ^ 53 \<Longrightarrow> to_double (of_nat n) = Finite (of_nat n)"
  using to_double_of_int [of "int n"] by simp


lemma round_half_even_minus: "round_half_even (- t) = - round_half_even t"
proof (cases "t = of_int \<lfloor>t\<rfloor>")
  case True
  then obtain k where "t = of_int k" ..
  then have "- t = of_int (- k)" by simp
  then show ?thesis
    unfolding \<open>t = of_int k\<close> by (simp only: round_half_even_of_int)
next
  case False
  define f where "f = \<lfloor>t\<rfloor>"
  define r where "r = t - of_int f"
  have c: "\<lceil>t\<rceil> = f + 1"
    using False by (simp add: ceiling_altdef f_def)
  have fm: "\<lfloor>- t\<rfloor> = - f - 1"
    by (simp add: floor_minus c)
  have rm: "- t - of_int (- f - 1) = 1 - r"
    by (simp add: r_def)
  have e: "even (- f - 1) \<longleftrightarrow> odd f"
    by simp
  show ?thesis
    unfolding round_half_even_def Let_def fm rm e f_def [symmetric] r_def [symmetric]
    by auto
qed

lemma to_double_minus_Finite: "to_double x = Finite y \<Longrightarrow> to_double (- x) = Finite (- y)"
  by (auto simp add: to_double_Finite_iff round_half_even_minus split: if_splits)

text \<open>Rounding keeps a lower bound that is a double, and an upper bound likewise.\<close>

lemma double_on_grid:
  assumes "to_double a = Finite a" "a \<noteq> 0"
  shows "\<exists>k. a / 2 powi ulp_exponent a = of_int k"
proof -
  from assms have "a = of_int (round_half_even (a / 2 powi ulp_exponent a)) * 2 powi ulp_exponent a"
    by (simp add: to_double_Finite_iff)
  then have "a / 2 powi ulp_exponent a = of_int (round_half_even (a / 2 powi ulp_exponent a))"
    by (simp add: field_simps)
  then show ?thesis ..
qed

lemma coarser_grid:
  fixes a :: rat
  assumes "a / 2 powi ea = of_int k" "e \<le> ea"
  shows "\<exists>j. a / 2 powi e = of_int j"
proof -
  from assms(1) have a: "a = of_int k * 2 powi ea"
    by (simp add: field_simps)
  have "a / 2 powi e = of_int (k * 2 ^ nat (ea - e))"
    unfolding a by (rule on_grid [OF assms(2)])
  then show ?thesis ..
qed

lemma round_lower:
  assumes a: "to_double a = Finite a" and ax: "a \<le> x" and x0: "x \<noteq> 0"
  shows "a \<le> of_int (round_half_even (x / 2 powi ulp_exponent x)) * 2 powi ulp_exponent x"
proof -
  define e where "e = ulp_exponent x"
  define m where "m = round_half_even (x / 2 powi e)"
  have p: "0 < (2 :: rat) powi e" by simp
  have goal: "a / 2 powi e \<le> of_int m" if "\<exists>j. a / 2 powi e = of_int j"
  proof -
    from that obtain j where j: "a / 2 powi e = of_int j" ..
    have "a / 2 powi e \<le> x / 2 powi e"
      using ax by (intro divide_right_mono) simp_all
    then have "j \<le> m"
      unfolding m_def j by (rule round_half_even_ge)
    then show ?thesis unfolding j by simp
  qed
  have "a / 2 powi e \<le> of_int m"
  proof (cases "a \<le> 0")
    case True
    show ?thesis
    proof (cases "0 \<le> x")
      case True
      then have "of_int 0 \<le> x / 2 powi e" by simp
      then have "0 \<le> m" unfolding m_def by (rule round_half_even_ge)
      moreover have "a / 2 powi e \<le> 0" using \<open>a \<le> 0\<close> by (simp add: divide_le_0_iff)
      ultimately show ?thesis by simp
    next
      case False
      with ax have a0: "a \<noteq> 0" and le: "\<bar>x\<bar> \<le> \<bar>a\<bar>" by simp_all
      from ulp_exponent_mono [OF x0 le] have "e \<le> ulp_exponent a" by (simp add: e_def)
      from double_on_grid [OF a a0] this have "\<exists>j. a / 2 powi e = of_int j"
        by (auto intro: coarser_grid)
      then show ?thesis by (rule goal)
    qed
  next
    case False
    then have a0: "a \<noteq> 0" "0 < a" by simp_all
    with ax have xp: "0 < x" by simp
    show ?thesis
    proof (cases "e \<le> ulp_exponent a")
      case True
      from double_on_grid [OF a a0(1)] this have "\<exists>j. a / 2 powi e = of_int j"
        by (auto intro: coarser_grid)
      then show ?thesis by (rule goal)
    next
      case False
      have "- 1074 \<le> ulp_exponent a" by (rule ulp_exponent_ge)
      with False have e: "e = ilog2 x - 52" "ilog2 a - 52 < e"
        using xp a0 by (simp_all add: e_def ulp_exponent_def max_def split: if_splits)
      then have "ilog2 a + 1 \<le> ilog2 x" by simp
      have "a < 2 powi (ilog2 a + 1)" using ilog2_bounds(2) [OF a0(2)] .
      also have "\<dots> \<le> 2 powi ilog2 x" using \<open>ilog2 a + 1 \<le> ilog2 x\<close> by simp
      finally have "a < 2 powi ilog2 x" .
      then have "a / 2 powi e < 2 powi ilog2 x / 2 powi e"
        by (intro divide_strict_right_mono) simp_all
      also have "\<dots> = 2 powi (ilog2 x - e)"
        by (simp add: power_int_diff)
      also have "\<dots> = of_int (2 ^ 52)"
        by (simp add: e(1))
      finally have l: "a / 2 powi e < of_int (2 ^ 52)" .
      have "2 powi ilog2 x / 2 powi e \<le> x / 2 powi e"
        using ilog2_bounds(1) [OF xp] by (intro divide_right_mono) simp_all
      also have "2 powi ilog2 x / 2 powi e = (of_int (2 ^ 52) :: rat)"
        by (simp add: power_int_diff [symmetric] e(1))
      finally have "2 ^ 52 \<le> m"
        unfolding m_def by (rule round_half_even_ge)
      then have "(of_int (2 ^ 52) :: rat) \<le> of_int m"
        by (simp only: of_int_le_iff)
      with l show ?thesis by simp
    qed
  qed
  then have "a \<le> of_int m * 2 powi e"
    by (simp add: field_simps)
  then show ?thesis by (simp add: m_def e_def)
qed

lemma to_double_not_NaN [simp]: "to_double x \<noteq> NaN"
  by (simp add: to_double_def Let_def)

lemma to_double_cases:
  obtains (Finite) y where "to_double x = Finite y" | (PosInfinity) "to_double x = PosInfinity" | (NegInfinity) "to_double x = NegInfinity"
  using to_double_not_NaN [of x] by (cases "to_double x") simp_all

lemma double_bounds: "to_double a = Finite a \<Longrightarrow> a < 2 ^ 1024 \<and> - (2 ^ 1024) < a"
  by (cases "a = 0") (simp_all add: to_double_Finite_iff)

lemma to_double_lower:
  assumes a: "to_double a = Finite a" and ax: "a \<le> x"
  shows "js_le (Finite a) (to_double x)"
proof (cases "x = 0")
  case True
  with ax show ?thesis by (auto simp add: to_double_def js_le_def js_less_def)
next
  case False
  define y :: rat where "y = of_int (round_half_even (x / 2 powi ulp_exponent x)) * 2 powi ulp_exponent x"
  from round_lower [OF a ax False] have ay: "a \<le> y" by (simp add: y_def)
  from double_bounds [OF a] ay have "\<not> y \<le> - (2 ^ 1024)" by simp
  with False ay show ?thesis
    unfolding to_double_def Let_def y_def [symmetric]
    by (auto simp add: js_le_def js_less_def)
qed

lemma to_double_minus: "to_double (- x) = js_negate (to_double x)"
proof (cases "x = 0")
  case True
  then show ?thesis by (simp add: to_double_def js_negate_def)
next
  case False
  have "- x / 2 powi ulp_exponent x = - (x / 2 powi ulp_exponent x)" by simp
  with False show ?thesis
    unfolding to_double_def Let_def ulp_exponent_minus
    by (simp add: round_half_even_minus js_negate_def)
qed

lemma to_double_upper:
  assumes b: "to_double b = Finite b" and xb: "x \<le> b"
  shows "js_le (to_double x) (Finite b)"
proof -
  from to_double_minus_Finite [OF b] have "to_double (- b) = Finite (- b)" .
  from to_double_lower [OF this, of "- x"] xb have "js_le (Finite (- b)) (js_negate (to_double x))"
    by (simp add: to_double_minus)
  then show ?thesis
    by (cases x rule: to_double_cases) (auto simp add: js_le_def js_less_def js_negate_def)
qed

lemma to_double_nonneg: "0 \<le> x \<Longrightarrow> js_le (Finite 0) (to_double x)"
  by (rule to_double_lower) (simp_all add: to_double_def)

text \<open>The division of a non-negative double by \<open>2^32\<close> is exact as far as its floor.\<close>

lemma to_double_half: "to_double (1 / 2) = Finite (1 / 2)"
  by (rule representable [where m = 1 and e = "- 1"]) (simp_all add: power_int_minus)

lemma floor_fl_scaled:
  assumes x: "to_double x = Finite x" and x0: "0 \<le> x"
  shows "\<exists>z. to_double (x / 2 ^ 32) = Finite z \<and> \<lfloor>z\<rfloor> = \<lfloor>x / 2 ^ 32\<rfloor>"
proof (cases "x = 0")
  case True
  then show ?thesis by (simp add: to_double_def)
next
  case False
  define e where "e = ulp_exponent x"
  define m where "m = round_half_even (x / 2 powi e)"
  from x False have xm: "x = of_int m * 2 powi e" and b: "x < 2 ^ 1024"
    by (simp_all add: to_double_Finite_iff m_def e_def)
  from significand_less [OF False] x0 have s: "x / 2 powi e < of_int (2 ^ 53)"
    by (simp add: e_def)
  then have "x / 2 powi e \<le> of_int (2 ^ 53)" by simp
  then have mu: "m \<le> 2 ^ 53" unfolding m_def by (rule round_half_even_le)
  have "of_int 0 \<le> x / 2 powi e" using x0 by simp
  then have ml: "0 \<le> m" unfolding m_def by (rule round_half_even_ge)
  have sc: "x / 2 ^ 32 = of_int m * 2 powi (e - 32)"
    unfolding xm by (simp add: power_int_diff)
  show ?thesis
  proof (cases "- 1074 \<le> e - 32")
    case True
    have "x / 2 ^ 32 \<le> x" using x0 by (simp add: field_simps)
    with b x0 have "\<bar>x / 2 ^ 32\<bar> < 2 ^ 1024" by simp
    with sc mu ml True have "to_double (x / 2 ^ 32) = Finite (x / 2 ^ 32)"
      by (intro representable [of _ m "e - 32"]) simp_all
    then show ?thesis by blast
  next
    case False
    have "(of_int m :: rat) \<le> of_int (2 ^ 53)" using mu by (simp only: of_int_le_iff)
    then have "x / 2 ^ 32 \<le> 2 powi 53 * 2 powi (e - 32)"
      unfolding sc by (intro mult_right_mono) simp_all
    also have "\<dots> = 2 powi (53 + (e - 32))"
      using power_int_add [of "2 :: rat" 53 "e - 32"] by simp
    also have "\<dots> \<le> 2 powi (- 1)" using False by (simp only: pow2_le_iff)
    finally have h: "x / 2 ^ 32 \<le> 1 / 2" by (simp add: power_int_minus)
    have n: "0 \<le> x / 2 ^ 32" using x0 by simp
    from to_double_upper [OF to_double_half h] to_double_nonneg [OF n]
    obtain z where z: "to_double (x / 2 ^ 32) = Finite z" "0 \<le> z" "z \<le> 1 / 2"
      by (cases "x / 2 ^ 32" rule: to_double_cases) (auto simp add: js_le_def js_less_def)
    then have "\<lfloor>z\<rfloor> = 0" by (simp add: floor_eq_iff)
    moreover have "\<lfloor>x / 2 ^ 32\<rfloor> = 0" using h n by (simp add: floor_eq_iff)
    ultimately show ?thesis using z(1) by simp
  qed
qed

text \<open>Facts for the evaluation of the arithmetic on numerals.\<close>

lemma floor_rat_numeral [simp]: "\<lfloor>(numeral a / numeral b :: rat)\<rfloor> = numeral a div numeral b"
  using floor_divide_of_int_eq [of "numeral a" "numeral b", where ?'a = rat] by simp

lemma floor_rat_neg_numeral [simp]: "\<lfloor>(- (numeral a / numeral b) :: rat)\<rfloor> = - numeral a div numeral b"
  using floor_divide_of_int_eq [of "- numeral a" "numeral b", where ?'a = rat] by simp

lemma ceiling_rat_numeral [simp]: "\<lceil>(numeral a / numeral b :: rat)\<rceil> = - (- numeral a div numeral b)"
  unfolding ceiling_def by simp

lemma to_double_0 [simp]: "to_double 0 = Finite 0"
  by (simp add: to_double_def)

lemma to_double_numeral:
  "(numeral k :: nat) \<le> 2 ^ 53 \<Longrightarrow> to_double (numeral k) = Finite (numeral k)"
  using to_double_of_nat [of "numeral k"] by simp

lemmas number_eval = to_double_def ulp_exponent_def ilog2_def round_half_even_def compute_bitlen
  Let_def power_int_minus num_def

section \<open>Properties of the segment index parser\<close>

lemma readUint16_unat:
  "readUint16 buf offset =
     unat (push_bit 8 (ToInt32 (elem (backing buf) (offset + base buf)))
        OR ToInt32 (elem (backing buf) (offset + base buf + 1)))"
proof -
  define w where "w = push_bit 8 (ToInt32 (elem (backing buf) (offset + base buf)))
        OR ToInt32 (elem (backing buf) (offset + base buf + 1))"
  have "\<not> bit w 31"
    by (auto simp add: w_def ToInt32_def bit_simps split: option.splits dest: bit_imp_le_length)
  then have "\<not> sint w < 0"
    using bit_last_iff [of w] by simp
  with unsigned_fix [of w] have "nat (sint w) = unat w"
    by simp
  with \<open>\<not> sint w < 0\<close> show ?thesis
    unfolding readUint16_def Let_def w_def [symmetric] by simp
qed

lemma referenceType_of_bit: "referenceType_of n = (if bit n 31 then 1 else 0)"
proof -
  define w :: "32 word" where "w = word_of_nat n"
  have c: "(0x80000000 :: 32 word) = push_bit 31 1"
    by simp
  have "drop_bit 31 (w AND 0x80000000) = (of_bool (bit w 31) :: 32 word)"
    unfolding c by (rule bit_word_eqI) (auto simp add: bit_simps)
  moreover have "bit w 31 \<longleftrightarrow> bit n 31"
    by (simp add: w_def bit_simps)
  ultimately show ?thesis
    by (simp add: referenceType_of_def w_def)
qed

lemma parseReferences_Suc:
  "parseReferences sidx ts (Suc n) index startByte refs =
     (if referenceType_of (readUint32 (Box sidx) index) = 1 then None
      else parseReferences sidx ts n (index + 12)
             (startByte + referenceSize_of (readUint32 (Box sidx) index))
             (refs @ [\<lparr>referenceSize = referenceSize_of (readUint32 (Box sidx) index),
                         subsegmentDuration = readUint32 (Box sidx) (index + 4),
                         info = \<lparr>info_duration = js_divide (num (readUint32 (Box sidx) (index + 4))) (num ts),
                                  info_start = startByte,
                                  info_end = int startByte + int (referenceSize_of (readUint32 (Box sidx) index)) - 1\<rparr>\<rparr>]))"
  by (simp add: Let_def add.commute)

declare parseReferences.simps(2) [simp del]

lemma parseReferences_hierarchical:
  "k < n \<Longrightarrow> bit (readUint32 (Box sidx) (index + 12 * k)) 31 \<Longrightarrow>
     parseReferences sidx ts n index startByte refs = None"
proof (induction n arbitrary: k index startByte refs)
  case 0
  then show ?case by simp
next
  case (Suc n)
  show ?case
  proof (cases k)
    case 0
    with Suc.prems show ?thesis
      by (simp add: parseReferences_Suc referenceType_of_bit)
  next
    case (Suc j)
    with Suc.prems have "j < n" "bit (readUint32 (Box sidx) (index + 12 + 12 * j)) 31"
      by (simp_all add: add.assoc)
    from Suc.IH [OF this] show ?thesis
      by (simp add: parseReferences_Suc)
  qed
qed

lemma parseReferences_length:
  "parseReferences sidx ts n index startByte refs = Some rs \<Longrightarrow>
     length rs = length refs + n \<and> (\<forall>k<n. \<not> bit (readUint32 (Box sidx) (index + 12 * k)) 31)"
proof (induction n arbitrary: index startByte refs)
  case 0
  then show ?case by simp
next
  case (Suc n)
  from Suc.prems have t: "\<not> bit (readUint32 (Box sidx) index) 31"
    by (auto simp add: parseReferences_Suc referenceType_of_bit split: if_splits)
  from Suc.prems obtain r where
    "parseReferences sidx ts n (index + 12) (startByte + referenceSize_of (readUint32 (Box sidx) index)) (refs @ [r]) = Some rs"
    by (auto simp add: parseReferences_Suc split: if_splits)
  from Suc.IH [OF this] have l: "length rs = length refs + Suc n"
    and b: "\<forall>k<n. \<not> bit (readUint32 (Box sidx) (index + 12 + 12 * k)) 31"
    by simp_all
  have "\<not> bit (readUint32 (Box sidx) (index + 12 * k)) 31" if "k < Suc n" for k
  proof (cases k)
    case 0
    with t show ?thesis by simp
  next
    case (Suc j)
    with that b show ?thesis by (simp add: add.assoc)
  qed
  with l show ?case by simp
qed


lemma parseSegmentIndex_found:
  assumes "findBox (Bytes d) [''sidx''] = sidx # rest"
  shows "parseSegmentIndex d =
     (case parseReferences sidx (readUint32 (Box sidx) (if elem d 0 = Some 0 then 8 else 16))
             (readUint16 (Box sidx) (referencesOffset d - 2)) (referencesOffset d) (box_end sidx) [] of
        None \<Rightarrow> None
      | Some refs \<Rightarrow>
          Some \<lparr>sidx_earliestPresentationTime = 0,
                sidx_timescale = readUint32 (Box sidx) (if elem d 0 = Some 0 then 8 else 16),
                sidx_version = elem d 0,
                sidx_referencesCount = readUint16 (Box sidx) (referencesOffset d - 2),
                sidx_references = refs,
                sidx_moovEndOffset =
                  (case findBox (Bytes d) [''moov''] of [] \<Rightarrow> None | moov # _ \<Rightarrow> Some (box_end moov))\<rparr>)"
proof -
  have "sidx \<in> set (findBox (Bytes d) [''sidx''])"
    using assms by simp
  from findBox_data [OF this] have dd: "box_data sidx = d"
    by simp
  show ?thesis
    unfolding parseSegmentIndex_def assms Let_def list.case dd
    by (cases "elem d 0 = Some 0") (simp_all add: referencesOffset_def split: option.split)
qed

text \<open>
  What the parser does with the words it reads: when any of the references that it
  counts has the top bit of its reference word set, it yields no result; a result that
  is returned holds as many references as were counted, none of them hierarchical. The
  count and the words are read at the offsets of version 0 or version 1 as the first
  byte of the buffer selects.
\<close>

lemma parseSegmentIndex_reads:
  assumes "findBox (Bytes d) [''sidx''] = sidx # rest"
  shows "(k < readUint16 (Box sidx) (referencesOffset d - 2)
          \<and> bit (readUint32 (Box sidx) (referencesOffset d + 12 * k)) 31
        \<longrightarrow> parseSegmentIndex d = None)
    \<and> (\<forall>r. parseSegmentIndex d = Some r \<longrightarrow>
          length (sidx_references r) = sidx_referencesCount r
          \<and> sidx_referencesCount r = readUint16 (Box sidx) (referencesOffset d - 2)
          \<and> (\<forall>j < sidx_referencesCount r.
                \<not> bit (readUint32 (Box sidx) (referencesOffset d + 12 * j)) 31))"
proof (rule conjI)
  show "k < readUint16 (Box sidx) (referencesOffset d - 2)
          \<and> bit (readUint32 (Box sidx) (referencesOffset d + 12 * k)) 31
        \<longrightarrow> parseSegmentIndex d = None"
  proof
    assume "k < readUint16 (Box sidx) (referencesOffset d - 2)
          \<and> bit (readUint32 (Box sidx) (referencesOffset d + 12 * k)) 31"
    then have "parseReferences sidx (readUint32 (Box sidx) (if elem d 0 = Some 0 then 8 else 16))
             (readUint16 (Box sidx) (referencesOffset d - 2)) (referencesOffset d) (box_end sidx) [] = None"
      by (intro parseReferences_hierarchical [of k]) simp_all
    then show "parseSegmentIndex d = None"
      unfolding parseSegmentIndex_found [OF assms]
      by simp
  qed
next
  show "\<forall>r. parseSegmentIndex d = Some r \<longrightarrow>
          length (sidx_references r) = sidx_referencesCount r
          \<and> sidx_referencesCount r = readUint16 (Box sidx) (referencesOffset d - 2)
          \<and> (\<forall>j < sidx_referencesCount r.
                \<not> bit (readUint32 (Box sidx) (referencesOffset d + 12 * j)) 31)"
  proof (intro allI impI)
    fix r
    assume "parseSegmentIndex d = Some r"
    then obtain refs where
      p: "parseReferences sidx (readUint32 (Box sidx) (if elem d 0 = Some 0 then 8 else 16))
             (readUint16 (Box sidx) (referencesOffset d - 2)) (referencesOffset d) (box_end sidx) [] = Some refs"
      and r: "sidx_references r = refs"
        "sidx_referencesCount r = readUint16 (Box sidx) (referencesOffset d - 2)"
      unfolding parseSegmentIndex_found [OF assms]
      by (auto split: option.splits)
    from parseReferences_length [OF p] r
    show "length (sidx_references r) = sidx_referencesCount r
          \<and> sidx_referencesCount r = readUint16 (Box sidx) (referencesOffset d - 2)
          \<and> (\<forall>j < sidx_referencesCount r.
                \<not> bit (readUint32 (Box sidx) (referencesOffset d + 12 * j)) 31)"
      by simp
  qed
qed

lemma sidx_hier_found: "findBox (Bytes sidx_hierarchical_example) [''sidx''] = [\<lparr>box_data = sidx_hierarchical_example, box_start = 8, box_end = 56\<rparr>]"
  unfolding sidx_hierarchical_example_def
  by (simp add: findBox_def findBox_scan.simps(2) byte_eval)

lemma sidx_hier_count: "readUint16 (Box \<lparr>box_data = sidx_hierarchical_example, box_start = 8, box_end = 56\<rparr>) 22 = 2"
  unfolding sidx_hierarchical_example_def
  by (simp add: readUint16_unat elem_def ToInt32_def)

lemma sidx_hier_word: "readUint32 (Box \<lparr>box_data = sidx_hierarchical_example, box_start = 8, box_end = 56\<rparr>) 36 = 2147484648"
  unfolding sidx_hierarchical_example_def
  by (simp add: readUint32_unat elem_def ToInt32_def)

lemma sidx_hier_bit: "bit (2147484648 :: nat) 31"
  by (simp add: bit_iff_odd)

lemma sidx_flat_found: "findBox (Bytes sidx_flat_example) [''sidx''] = [\<lparr>box_data = sidx_flat_example, box_start = 8, box_end = 44\<rparr>]"
  unfolding sidx_flat_example_def
  by (simp add: findBox_def findBox_scan.simps(2) byte_eval)

lemma sidx_flat_moov: "findBox (Bytes sidx_flat_example) [''moov''] = []"
  unfolding sidx_flat_example_def
  by (simp add: findBox_def findBox_scan.simps(2) byte_eval)

lemma sidx_flat_count: "readUint16 (Box \<lparr>box_data = sidx_flat_example, box_start = 8, box_end = 44\<rparr>) 22 = 1"
  unfolding sidx_flat_example_def
  by (simp add: readUint16_unat elem_def ToInt32_def)

lemma sidx_flat_words: "readUint32 (Box \<lparr>box_data = sidx_flat_example, box_start = 8, box_end = 44\<rparr>) 24 = 1000"
  "readUint32 (Box \<lparr>box_data = sidx_flat_example, box_start = 8, box_end = 44\<rparr>) 28 = 45000"
  "readUint32 (Box \<lparr>box_data = sidx_flat_example, box_start = 8, box_end = 44\<rparr>) 8 = 90000"
  unfolding sidx_flat_example_def
  by (simp_all add: readUint32_unat elem_def ToInt32_def)

lemma sidx_flat_type: "referenceType_of 1000 = 0" "referenceSize_of 1000 = 1000"
  by (simp_all add: referenceType_of_def referenceSize_of_def)

lemma sidx_flat_parse: "parseSegmentIndex sidx_flat_example =
   Some \<lparr>sidx_earliestPresentationTime = 0, sidx_timescale = 90000, sidx_version = Some 0,
     sidx_referencesCount = 1,
     sidx_references = [\<lparr>referenceSize = 1000, subsegmentDuration = 45000,
        info = \<lparr>info_duration = Finite (1 / 2), info_start = 44, info_end = 1043\<rparr>\<rparr>],
     sidx_moovEndOffset = None\<rparr>"
proof -
  have o: "referencesOffset sidx_flat_example = 24" "elem sidx_flat_example 0 = Some 0"
    by (simp_all add: referencesOffset_def sidx_flat_example_def elem_def)
  show ?thesis
    unfolding parseSegmentIndex_found [OF sidx_flat_found] o sidx_flat_moov
    by (simp add: sidx_flat_count sidx_flat_words sidx_flat_type parseReferences_Suc js_divide_def number_eval)
qed


lemma parseSegmentIndex_version0_examples:
  "findBox (Bytes sidx_hierarchical_example) [''sidx'']
     = [\<lparr>box_data = sidx_hierarchical_example, box_start = 8, box_end = 56\<rparr>]
   \<and> 1 < readUint16 (Box \<lparr>box_data = sidx_hierarchical_example, box_start = 8, box_end = 56\<rparr>)
         (referencesOffset sidx_hierarchical_example - 2)
   \<and> bit (readUint32 (Box \<lparr>box_data = sidx_hierarchical_example, box_start = 8, box_end = 56\<rparr>)
         (referencesOffset sidx_hierarchical_example + 12 * 1)) 31
   \<and> parseSegmentIndex sidx_hierarchical_example = None
   \<and> findBox (Bytes sidx_flat_example) [''sidx'']
     = [\<lparr>box_data = sidx_flat_example, box_start = 8, box_end = 44\<rparr>]
   \<and> parseSegmentIndex sidx_flat_example =
       Some \<lparr>sidx_earliestPresentationTime = 0, sidx_timescale = 90000, sidx_version = Some 0,
         sidx_referencesCount = 1,
         sidx_references = [\<lparr>referenceSize = 1000, subsegmentDuration = 45000,
            info = \<lparr>info_duration = Finite (1 / 2), info_start = 44, info_end = 1043\<rparr>\<rparr>],
         sidx_moovEndOffset = None\<rparr>
   \<and> length [\<lparr>referenceSize = 1000, subsegmentDuration = 45000,
            info = \<lparr>info_duration = Finite (1 / 2), info_start = 44, info_end = 1043\<rparr>\<rparr>] = (1 :: nat)"
proof -
  have o: "referencesOffset sidx_hierarchical_example = 24"
    by (simp add: referencesOffset_def sidx_hierarchical_example_def elem_def)
  have h: "1 < readUint16 (Box \<lparr>box_data = sidx_hierarchical_example, box_start = 8, box_end = 56\<rparr>)
         (referencesOffset sidx_hierarchical_example - 2)
     \<and> bit (readUint32 (Box \<lparr>box_data = sidx_hierarchical_example, box_start = 8, box_end = 56\<rparr>)
         (referencesOffset sidx_hierarchical_example + 12 * 1)) 31"
    by (simp add: o sidx_hier_count sidx_hier_word bit_iff_odd)
  from parseSegmentIndex_reads [OF sidx_hier_found, of 1] h
  have n: "parseSegmentIndex sidx_hierarchical_example = None"
    by blast
  show ?thesis
    by (intro conjI h [THEN conjunct1] h [THEN conjunct2] n sidx_hier_found sidx_flat_found
        sidx_flat_parse) simp
qed

lemma sidx_version1_found:
  "findBox (Bytes sidx_version1_example) [''sidx'']
     = [\<lparr>box_data = sidx_version1_example, box_start = 8, box_end = 52\<rparr>]"
  "findBox (Bytes sidx_version1_example) [''moov''] = []"
  unfolding sidx_version1_example_def
  by (simp_all add: findBox_def findBox_scan.simps(2) byte_eval)

lemma sidx_version1_words:
  "elem sidx_version1_example 0 = Some 0"
  "elem sidx_version1_example 8 = Some 1"
  "readUint32 (Box \<lparr>box_data = sidx_version1_example, box_start = 8, box_end = 52\<rparr>) 8 = 90000"
  "readUint16 (Box \<lparr>box_data = sidx_version1_example, box_start = 8, box_end = 52\<rparr>) 22 = 0"
  "readUint16 (Box \<lparr>box_data = sidx_version1_example, box_start = 8, box_end = 52\<rparr>) 30 = 1"
  "readUint32 (Box \<lparr>box_data = sidx_version1_example, box_start = 8, box_end = 52\<rparr>) 32 = 2147484648"
  unfolding sidx_version1_example_def
  by (simp_all add: readUint32_unat readUint16_unat elem_def ToInt32_def)

text \<open>
  C4. The parser takes the version from \<open>sidx.data[0]\<close>, the first byte of the
  buffer, where the other parsers of full boxes read \<open>data[start]\<close>. A \<open>sidx\<close> box
  of version 1 that heads the buffer is therefore decoded with the offsets of version 0:
  the reference count is read inside the 64-bit first offset. For the box of version 1
  whose only reference is hierarchical, the count read is 0, and a result with no
  references is returned where no result is due.
\<close>

theorem parseSegmentIndex_hierarchical:
  "findBox (Bytes sidx_version1_example) [''sidx'']
     = [\<lparr>box_data = sidx_version1_example, box_start = 8, box_end = 52\<rparr>]
   \<and> elem sidx_version1_example 8 = Some 1
   \<and> readUint16 (Box \<lparr>box_data = sidx_version1_example, box_start = 8, box_end = 52\<rparr>) 30 = 1
   \<and> bit (readUint32 (Box \<lparr>box_data = sidx_version1_example, box_start = 8, box_end = 52\<rparr>) 32) 31
   \<and> parseSegmentIndex sidx_version1_example =
       Some \<lparr>sidx_earliestPresentationTime = 0, sidx_timescale = 90000, sidx_version = Some 0,
         sidx_referencesCount = 0, sidx_references = [], sidx_moovEndOffset = None\<rparr>"
proof -
  have o: "referencesOffset sidx_version1_example = 24"
    by (simp add: referencesOffset_def sidx_version1_words)
  have p: "parseSegmentIndex sidx_version1_example =
       Some \<lparr>sidx_earliestPresentationTime = 0, sidx_timescale = 90000, sidx_version = Some 0,
         sidx_referencesCount = 0, sidx_references = [], sidx_moovEndOffset = None\<rparr>"
    unfolding parseSegmentIndex_found [OF sidx_version1_found(1)] o sidx_version1_found(2)
    by (simp add: sidx_version1_words)
  show ?thesis
    by (intro conjI sidx_version1_found(1) p) (simp_all add: sidx_version1_words bit_iff_odd)
qed

section \<open>Properties of the sample timeline\<close>

lemma and_then_Inr [simp]: "and_then (Inr v) f = f v"
  by (simp add: and_then_def)

lemma and_then_Inl [simp]: "and_then (Inl e) f = Inl e"
  by (simp add: and_then_def)

lemma and_then_eq_Inr: "and_then r f = Inr y \<longleftrightarrow> (\<exists>v. r = Inr v \<and> f v = Inr y)"
  by (cases r) simp_all

lemma stampSamples_Cons [simp]:
  "stampSamples dd ds t cur (x # xs) =
     (stampSample dd ds t cur x
        # fst (stampSamples dd ds t (js_plus cur (num (or_default (sample_duration x) dd))) xs),
      snd (stampSamples dd ds t (js_plus cur (num (or_default (sample_duration x) dd))) xs))"
  by (simp add: Let_def split: prod.splits)

declare stampSamples.simps(2) [simp del]






lemma length_stampSamples [simp]: "length (fst (stampSamples dd ds t cur xs)) = length xs"
  by (induction xs arbitrary: cur) simp_all














section \<open>Properties of the timed-metadata extractor\<close>

declare nullTerminatorIndex.simps [simp del]

lemma array_map_total:
  "(\<And>x. x \<in> set xs \<Longrightarrow> f x = Inr (g x)) \<Longrightarrow> array_map f xs = Inr (map g xs)"
  by (induction xs) simp_all

lemma catch_total: "catch r (\<lambda>e. Inr None) = Inr (case r of Inl e \<Rightarrow> None | Inr v \<Rightarrow> v)"
  by (cases r) (simp_all add: catch_def)

lemma parseId3TrackSamples_eq:
  "parseId3TrackSamples d =
     Inr (map (\<lambda>emsg. case parseEmsg emsg of Inl e \<Rightarrow> None | Inr v \<Rightarrow> v) (findBox (Bytes d) [''emsg'']))"
  unfolding parseId3TrackSamples_def Let_def
  by (rule array_map_total) (simp add: catch_total)

lemma unat_byte_eq_1: "unat (b :: byte) = 1 \<longleftrightarrow> b = 1"
  using word_unat_eq_iff [of b 1] by simp

lemma parseEmsg_cases:
  "parseEmsg emsg =
     (if length (emsg_payload emsg) = 0 then Inl RangeError
      else if emsg_payload emsg ! 0 \<noteq> 1 then Inr None
      else if length (emsg_payload emsg) < 24 then Inl RangeError
      else if readNullTerminatedString (emsg_payload emsg) 24 \<notin> set ID3_SCHEME_ID_URIS then Inr None
      else Inr (Some
        \<lparr>id3_timescale = readUint32 (Bytes (emsg_payload emsg)) 4,
         id3_pts = Number_of_BigInt (readUint32 (Bytes (emsg_payload emsg)) 8 * 4294967296
                     + readUint32 (Bytes (emsg_payload emsg)) 12),
         id3_dts = Number_of_BigInt (readUint32 (Bytes (emsg_payload emsg)) 8 * 4294967296
                     + readUint32 (Bytes (emsg_payload emsg)) 12),
         id3_duration = (if readUint32 (Bytes (emsg_payload emsg)) 16 \<noteq> 4294967295
                         then Some (readUint32 (Bytes (emsg_payload emsg)) 16) else None),
         id3_id = readUint32 (Bytes (emsg_payload emsg)) 20,
         id3_schemeIdUri = readNullTerminatedString (emsg_payload emsg) 24,
         id3_value = readNullTerminatedString (emsg_payload emsg)
            (24 + (length (readNullTerminatedString (emsg_payload emsg) 24) + 1)),
         id3_data = subarray (emsg_payload emsg)
            (24 + (length (readNullTerminatedString (emsg_payload emsg) 24) + 1)
              + (length (readNullTerminatedString (emsg_payload emsg)
                    (24 + (length (readNullTerminatedString (emsg_payload emsg) 24) + 1))) + 1))
            (length (emsg_payload emsg))\<rparr>))"
  unfolding parseEmsg_def emsg_payload_def [symmetric] Let_def
  using unat_byte_eq_1 [of "emsg_payload emsg ! 0"]
  by (auto simp add: getUint8_def getUint32_def getBigUint64_def Suc_le_eq)


lemma parseEmsg_result:
  "(case parseEmsg emsg of Inl e \<Rightarrow> None | Inr v \<Rightarrow> v) =
     (if elem (emsg_payload emsg) 0 \<noteq> Some 1 \<or> length (emsg_payload emsg) < 24
         \<or> readNullTerminatedString (emsg_payload emsg) 24 \<notin> set ID3_SCHEME_ID_URIS
      then None else Some (id3_record (emsg_payload emsg)))"
  unfolding parseEmsg_cases by (auto simp add: elem_def id3_record_def Let_def)

lemma parseEmsg_raises:
  "(\<exists>e. parseEmsg emsg = Inl e) \<longleftrightarrow>
     emsg_payload emsg = [] \<or> elem (emsg_payload emsg) 0 = Some 1 \<and> length (emsg_payload emsg) < 24"
  unfolding parseEmsg_cases by (auto simp add: elem_def)

text \<open>
  \<open>parseId3TrackSamples\<close> never throws and returns one entry for each \<open>emsg\<close>
  box, in order. The entry is \<open>undefined\<close> when the version byte is not 1, when the
  payload is shorter than its 24 bytes of fixed fields (the cases in which the decoding
  raises are among these) or when the scheme URI is not on the allow-list; otherwise it
  is the record of the box.
\<close>

lemma parseId3TrackSamples_each:
  "\<exists>rs. parseId3TrackSamples d = Inr rs
     \<and> length rs = length (findBox (Bytes d) [''emsg''])
     \<and> (\<forall>k < length rs.
          rs ! k =
            (if elem (emsg_payload (findBox (Bytes d) [''emsg''] ! k)) 0 \<noteq> Some 1
                \<or> length (emsg_payload (findBox (Bytes d) [''emsg''] ! k)) < 24
                \<or> readNullTerminatedString (emsg_payload (findBox (Bytes d) [''emsg''] ! k)) 24
                     \<notin> set ID3_SCHEME_ID_URIS
             then None
             else Some (id3_record (emsg_payload (findBox (Bytes d) [''emsg''] ! k))))
          \<and> ((\<exists>e. parseEmsg (findBox (Bytes d) [''emsg''] ! k) = Inl e) \<longleftrightarrow>
                emsg_payload (findBox (Bytes d) [''emsg''] ! k) = []
                \<or> elem (emsg_payload (findBox (Bytes d) [''emsg''] ! k)) 0 = Some 1
                  \<and> length (emsg_payload (findBox (Bytes d) [''emsg''] ! k)) < 24))"
  unfolding parseId3TrackSamples_eq
  by (simp add: parseEmsg_result parseEmsg_raises)

lemma emsg_example_found:
  "findBox (Bytes emsg_example) [''emsg''] =
     [\<lparr>box_data = emsg_example, box_start = 8, box_end = 9\<rparr>,
      \<lparr>box_data = emsg_example, box_start = 17, box_end = 75\<rparr>]"
  unfolding emsg_example_def
  by (simp add: findBox_def findBox_scan.simps(2) byte_eval)

lemma emsg_example_scheme:
  "readNullTerminatedString (emsg_payload \<lparr>box_data = emsg_example, box_start = 17, box_end = 75\<rparr>) 24
     = ''https://aomedia.org/emsg/ID3''"
  unfolding emsg_example_def
  by (simp add: emsg_payload_def readNullTerminatedString_def nullTerminatorIndex.simps byte_eval)


lemma emsg_example_record:
  "id3_record (emsg_payload \<lparr>box_data = emsg_example, box_start = 17, box_end = 75\<rparr>)
     = \<lparr>id3_timescale = 90000, id3_pts = Finite 5, id3_dts = Finite 5, id3_duration = None, id3_id = 7,
        id3_schemeIdUri = ''https://aomedia.org/emsg/ID3'', id3_value = ''1'',
        id3_data = [73, 68, 51]\<rparr>"
  unfolding id3_record_def emsg_example_scheme Let_def
  unfolding emsg_example_def
  by (simp add: emsg_payload_def readNullTerminatedString_def nullTerminatorIndex.simps byte_eval
      Number_of_BigInt_def to_double_numeral)

lemma emsg_example_payloads:
  "elem (emsg_payload \<lparr>box_data = emsg_example, box_start = 8, box_end = 9\<rparr>) 0 = Some 0"
  "elem (emsg_payload \<lparr>box_data = emsg_example, box_start = 17, box_end = 75\<rparr>) 0 = Some 1"
  "length (emsg_payload \<lparr>box_data = emsg_example, box_start = 17, box_end = 75\<rparr>) = 58"
  unfolding emsg_example_def
  by (simp_all add: emsg_payload_def subarray_def elem_def)

lemma parseId3TrackSamples_example:
  "parseId3TrackSamples emsg_example =
     Inr [None,
          Some \<lparr>id3_timescale = 90000, id3_pts = Finite 5, id3_dts = Finite 5, id3_duration = None, id3_id = 7,
                id3_schemeIdUri = ''https://aomedia.org/emsg/ID3'', id3_value = ''1'',
                id3_data = [73, 68, 51]\<rparr>]"
proof -
  from parseId3TrackSamples_each [of emsg_example] obtain rs
    where r: "parseId3TrackSamples emsg_example = Inr rs"
      and l: "length rs = 2"
      and e: "\<forall>k < length rs. rs ! k =
            (if elem (emsg_payload (findBox (Bytes emsg_example) [''emsg''] ! k)) 0 \<noteq> Some 1
                \<or> length (emsg_payload (findBox (Bytes emsg_example) [''emsg''] ! k)) < 24
                \<or> readNullTerminatedString (emsg_payload (findBox (Bytes emsg_example) [''emsg''] ! k)) 24
                     \<notin> set ID3_SCHEME_ID_URIS
             then None
             else Some (id3_record (emsg_payload (findBox (Bytes emsg_example) [''emsg''] ! k))))"
    unfolding emsg_example_found by auto
  from e l have "rs ! 0 = None"
    by (simp add: emsg_example_found emsg_example_payloads)
  moreover from e l have "rs ! 1 = Some (id3_record
      (emsg_payload \<lparr>box_data = emsg_example, box_start = 17, box_end = 75\<rparr>))"
    by (simp add: emsg_example_found emsg_example_payloads emsg_example_scheme
        ID3_SCHEME_ID_URIS_def)
  moreover from l have "rs = [rs ! 0, rs ! 1]"
    by (intro nth_equalityI) (auto simp add: less_Suc_eq numeral_2_eq_2)
  ultimately show ?thesis
    using r by (simp add: emsg_example_record)
qed

text \<open>
  C5. The entries of the boxes that are skipped stay in the result as \<open>undefined\<close>:
  the callback of \<open>map\<close> returns \<open>undefined\<close> for them, and nothing removes them
  afterwards. A buffer holding one \<open>emsg\<close> box of version 0 gives a sequence of one
  entry, \<open>undefined\<close>, where the entry is to be dropped; \<open>remuxID3\<close> reads
  \<open>sample.pts\<close> of every entry it is given.
\<close>

theorem parseId3TrackSamples_skipped_entry:
  "parseId3TrackSamples [0, 0, 0, 9, 101, 109, 115, 103, 0] = Inr [None]"
  by (simp add: parseId3TrackSamples_eq parseEmsg_result emsg_payload_def findBox_def
      findBox_scan.simps(2) byte_eval)

section \<open>Properties of the fragment timing\<close>

lemma fragment_example_trafs:
  "findBox (Bytes fragment_example) [''moof'', ''traf'']
     = [\<lparr>box_data = fragment_example, box_start = 16, box_end = 52\<rparr>]"
  unfolding fragment_example_def
  by (simp add: findBox_def findBox_scan.simps(2) byte_eval)

lemma fragment_example_tfdt:
  "findBox (Box \<lparr>box_data = fragment_example, box_start = 16, box_end = 52\<rparr>) [''tfdt'']
     = [\<lparr>box_data = fragment_example, box_start = 40, box_end = 52\<rparr>]"
  unfolding fragment_example_def
  by (simp add: findBox_def findBox_scan.simps(2) byte_eval)

lemma fragment_example_tfhd:
  "findBox (Box \<lparr>box_data = fragment_example, box_start = 16, box_end = 52\<rparr>) [''tfhd'']
     = [\<lparr>box_data = fragment_example, box_start = 24, box_end = 32\<rparr>]"
  unfolding fragment_example_def
  by (simp add: findBox_def findBox_scan.simps(2) byte_eval)

lemma fragment_example_words:
  "readUint32 (Box \<lparr>box_data = fragment_example, box_start = 24, box_end = 32\<rparr>) 4 = 1"
  "readUint32 (Box \<lparr>box_data = fragment_example, box_start = 40, box_end = 52\<rparr>) 4 = 0"
  "readUint32 (Box \<lparr>box_data = fragment_example, box_start = 40, box_end = 52\<rparr>) 8 = 180000"
  "elem fragment_example 40 = Some 1"
  unfolding fragment_example_def
  by (simp_all add: readUint32_unat elem_def ToInt32_def)

lemma getStartDTS_example: "getStartDTS initData_example fragment_example = Inr (Finite 2)"
proof -
  have "tfdt_startTime \<lparr>box_data = fragment_example, box_start = 40, box_end = 52\<rparr>
      \<lparr>track_timescale = Some 90000, track_type = video, track_default = None\<rparr> = Finite 2"
    by (simp add: tfdt_startTime_def tfdt_baseTime_def fragment_example_words timescale_or_90k_def
        num_def js_times_def js_divide_def to_double_numeral)
  then show ?thesis
    by (simp add: getStartDTS_def fragment_example_trafs fragment_example_tfdt fragment_example_tfhd
        fragment_example_words getStartDTS_tfhd_def initData_example_def earlier_def isFinite_def)
qed

lemma fragment_missing_tfdt_boxes:
  "findBox (Bytes fragment_missing_tfdt) [''moof'', ''traf'']
     = [\<lparr>box_data = fragment_missing_tfdt, box_start = 16, box_end = 52\<rparr>,
        \<lparr>box_data = fragment_missing_tfdt, box_start = 60, box_end = 76\<rparr>]"
  "findBox (Box \<lparr>box_data = fragment_missing_tfdt, box_start = 16, box_end = 52\<rparr>) [''tfdt'']
     = [\<lparr>box_data = fragment_missing_tfdt, box_start = 40, box_end = 52\<rparr>]"
  "findBox (Box \<lparr>box_data = fragment_missing_tfdt, box_start = 16, box_end = 52\<rparr>) [''tfhd'']
     = [\<lparr>box_data = fragment_missing_tfdt, box_start = 24, box_end = 32\<rparr>]"
  "findBox (Box \<lparr>box_data = fragment_missing_tfdt, box_start = 60, box_end = 76\<rparr>) [''tfhd'']
     = [\<lparr>box_data = fragment_missing_tfdt, box_start = 68, box_end = 76\<rparr>]"
  "findBox (Box \<lparr>box_data = fragment_missing_tfdt, box_start = 60, box_end = 76\<rparr>) [''tfdt''] = []"
  unfolding fragment_missing_tfdt_def
  by (simp_all add: findBox_def findBox_scan.simps(2) byte_eval)

lemma fragment_missing_tfdt_words:
  "readUint32 (Box \<lparr>box_data = fragment_missing_tfdt, box_start = 24, box_end = 32\<rparr>) 4 = 1"
  "readUint32 (Box \<lparr>box_data = fragment_missing_tfdt, box_start = 68, box_end = 76\<rparr>) 4 = 2"
  "readUint32 (Box \<lparr>box_data = fragment_missing_tfdt, box_start = 40, box_end = 52\<rparr>) 4 = 0"
  "readUint32 (Box \<lparr>box_data = fragment_missing_tfdt, box_start = 40, box_end = 52\<rparr>) 8 = 180000"
  "elem fragment_missing_tfdt 40 = Some 1"
  unfolding fragment_missing_tfdt_def
  by (simp_all add: readUint32_unat elem_def ToInt32_def)

text \<open>
  C6. \<open>getStartDTS\<close> takes \<open>findBox(traf, ['tfdt'])[0]\<close> and reads its \<open>data\<close>
  with no test, where \<open>parseCaptionNals\<close> allows for a \<open>traf\<close> without a \<open>tfdt\<close>
  and \<open>offsetStartDTS\<close> iterates over the \<open>tfdt\<close> boxes that exist. In the fragment
  below the first \<open>traf\<close> belongs to the known track 1 and starts at 2 seconds; the
  second \<open>traf\<close> names a track that the table does not know and holds no \<open>tfdt\<close>.
  The call throws a \<open>TypeError\<close> where the minimum, 2 seconds, is due.
\<close>

theorem getStartDTS_missing_tfdt:
  "findBox (Bytes fragment_missing_tfdt) [''moof'', ''traf'']
     = [\<lparr>box_data = fragment_missing_tfdt, box_start = 16, box_end = 52\<rparr>,
        \<lparr>box_data = fragment_missing_tfdt, box_start = 60, box_end = 76\<rparr>]
   \<and> findBox (Box \<lparr>box_data = fragment_missing_tfdt, box_start = 60, box_end = 76\<rparr>) [''tfdt''] = []
   \<and> initData_example 2 = None
   \<and> getStartDTS initData_example fragment_missing_tfdt = Inl TypeError"
  by (simp add: getStartDTS_def fragment_missing_tfdt_boxes initData_example_def)

end
